theory Spec2Isabelle
  imports Main "HOL-Library.Sublist"
begin

section \<open>ThreadWeaver: the weaver core and job collections\<close>

text \<open>
  A shallow embedding of \<^verbatim>\<open>WeaverImpl.cpp\<close> and \<^verbatim>\<open>JobCollection.cpp\<close>.

  Every \<^verbatim>\<open>_p\<close> method of \<^verbatim>\<open>WeaverImpl\<close> runs with the weaver mutex held, so one
  call is modelled as a function from the world before the call to the world after it.
  The wait of a condition variable is not modelled; a wait, a wake-up, an emitted signal
  and a call into a queue policy are recorded as events of a trace, in the order in which
  the code performs them. The methods of the weaver are first written for a thread that
  is never refused a mutex. \<^verbatim>\<open>JobCollection::stop\<close> holds a mutex while it calls into
  the weaver, so its path is written with the mutexes that the thread holds.

  The model is the release build (\<^verbatim>\<open>QT_NO_DEBUG\<close>): \<^verbatim>\<open>Q_ASSERT\<close>, \<^verbatim>\<open>REQUIRE\<close>,
  \<^verbatim>\<open>ENSURE\<close> and \<^verbatim>\<open>P_ASSERT\<close> expand to nothing there. What an assertion demands is a
  hypothesis of a theorem where the theorem depends on it. A container access out of
  range and a call through a null pointer, undefined in that build, are error values.
\<close>

subsection \<open>Data model\<close>

datatype StateId = InConstruction | WorkingHard | Suspending | Suspended | ShuttingDown | Destructed

datatype Status =
  Status_New | Status_Queued | Status_Running | Status_Success | Status_Failed | Status_Aborted

text \<open>Objects are named by their addresses; \<open>None\<close> is the null \<^verbatim>\<open>JobPointer\<close>.\<close>

type_synonym JobId = nat
type_synonym ThreadId = nat
type_synonym PolicyId = nat
type_synonym JobPointer = "JobId option"

datatype event =
    PolicyCanRun PolicyId JobId bool
  | PolicyRelease PolicyId JobId
  | PolicyFree PolicyId JobPointer
  | JobAvailable_wakeAll
  | JobFinished_wakeAll
  | JobAvailable_wait ThreadId
  | Emit_finished
  | Emit_suspended
  | Emit_stateChanged StateId
  | Emit_threadSuspended ThreadId
  | State_activated StateId
  | Thread_start ThreadId
  | Executor_defaultEnd JobId JobPointer ThreadId

text \<open>
  \<open>Deadlock\<close>: the thread waits for a mutex that it holds itself, and the call never
  returns.
\<close>

datatype error = OutOfFuel | IndexOutOfRange | NullPointer | Deadlock

text \<open>
  A job object. \<open>isCollection\<close> is its dynamic type: \<^verbatim>\<open>Job\<close> or \<^verbatim>\<open>JobCollection\<close>.
  The fields from \<open>elements\<close> on are those of \<^verbatim>\<open>JobCollection::Private\<close>; \<open>api\<close> is
  \<^verbatim>\<open>d->api != 0\<close> (the model has one weaver).
\<close>

record Job =
  status :: Status
  priority :: int
  queuePolicies :: "PolicyId list"
  isCollection :: bool
  elements :: "JobId list"
  api :: bool
  jobCounter :: int
  jobsStarted :: int
  self :: JobPointer
  selfIsExecuting :: bool

text \<open>
  The weaver's members, the heap of job objects, and the queue policies. A queue policy
  is an object of the caller: its three methods are arbitrary functions on a state
  \<open>'s\<close> of the caller's choice.
\<close>

record 's world =
  m_assignments :: "JobId list"
  m_inventory :: "ThreadId list"
  m_inventoryMax :: int
  m_active :: int
  m_state :: StateId
  m_createdThreads :: nat
  heap :: "JobId \<Rightarrow> Job"
  canRun :: "PolicyId \<Rightarrow> JobId \<Rightarrow> 's \<Rightarrow> bool \<times> 's"
  release :: "PolicyId \<Rightarrow> JobId \<Rightarrow> 's \<Rightarrow> 's"
  free :: "PolicyId \<Rightarrow> JobPointer \<Rightarrow> 's \<Rightarrow> 's"
  policyState :: 's
  trace :: "event list"

definition emit :: "event \<Rightarrow> 's world \<Rightarrow> 's world" where
  "emit e w = w\<lparr>trace := trace w @ [e]\<rparr>"

definition updJob :: "JobId \<Rightarrow> (Job \<Rightarrow> Job) \<Rightarrow> 's world \<Rightarrow> 's world" where
  "updJob j f w = w\<lparr>heap := (heap w)(j := f (heap w j))\<rparr>"

subsection \<open>Calls into a queue policy\<close>

definition policy_canRun :: "PolicyId \<Rightarrow> JobId \<Rightarrow> 's world \<Rightarrow> bool \<times> 's world" where
  "policy_canRun p job w =
     (let (ok, s) = canRun w p job (policyState w)
      in (ok, emit (PolicyCanRun p job ok) (w\<lparr>policyState := s\<rparr>)))"

definition policy_release :: "PolicyId \<Rightarrow> JobId \<Rightarrow> 's world \<Rightarrow> 's world" where
  "policy_release p job w =
     emit (PolicyRelease p job) (w\<lparr>policyState := release w p job (policyState w)\<rparr>)"

definition policy_free :: "PolicyId \<Rightarrow> JobPointer \<Rightarrow> 's world \<Rightarrow> 's world" where
  "policy_free p job w =
     emit (PolicyFree p job) (w\<lparr>policyState := free w p job (policyState w)\<rparr>)"

subsection \<open>WeaverImpl: queries\<close>

definition maximumNumberOfThreads_p :: "'s world \<Rightarrow> int" where
  "maximumNumberOfThreads_p w = m_inventoryMax w"

definition currentNumberOfThreads_p :: "'s world \<Rightarrow> int" where
  "currentNumberOfThreads_p w = int (length (m_inventory w))"

definition isEmpty_p :: "'s world \<Rightarrow> bool" where
  "isEmpty_p w = (m_assignments w = [])"

definition isIdle_p :: "'s world \<Rightarrow> bool" where
  "isIdle_p w = (isEmpty_p w \<and> m_active w = 0)"

definition queueLength_p :: "'s world \<Rightarrow> int" where
  "queueLength_p w = int (length (m_assignments w))"

definition activeThreadCount :: "'s world \<Rightarrow> int" where
  "activeThreadCount w = m_active w"

subsection \<open>WeaverImpl::canBeExecuted\<close>

text \<open>
  The first loop of \<^verbatim>\<open>canBeExecuted\<close>: the policies are asked in turn, an admitting one
  is appended to \<open>acquired\<close>, the first refusing one ends the loop (\<^verbatim>\<open>break\<close>).
\<close>

fun acquire :: "PolicyId list \<Rightarrow> JobId \<Rightarrow> PolicyId list \<Rightarrow> 's world
                \<Rightarrow> bool \<times> PolicyId list \<times> 's world" where
  "acquire [] job acquired w = (True, acquired, w)"
| "acquire (p # ps) job acquired w =
     (case policy_canRun p job w of
        (True, w') \<Rightarrow> acquire ps job (acquired @ [p]) w'
      | (False, w') \<Rightarrow> (False, acquired, w'))"

text \<open>The second loop: \<^verbatim>\<open>release\<close> on every acquired policy, in order.\<close>

fun releaseAll :: "PolicyId list \<Rightarrow> JobId \<Rightarrow> 's world \<Rightarrow> 's world" where
  "releaseAll [] job w = w"
| "releaseAll (p # ps) job w = releaseAll ps job (policy_release p job w)"

definition canBeExecuted :: "JobId \<Rightarrow> 's world \<Rightarrow> bool \<times> 's world" where
  "canBeExecuted job w =
     (let policies = queuePolicies (heap w job)
      in if policies \<noteq> [] then
           (case acquire policies job [] w of
              (success, acquired, w') \<Rightarrow>
                if \<not> success then (success, releaseAll acquired job w') else (success, w'))
         else (True, w))"

subsection \<open>Job: the base class\<close>

text \<open>
  Modelled from the spec: \<^verbatim>\<open>Job.cpp\<close> is not among the sources. \<^verbatim>\<open>setStatus\<close>
  stores the status (the spec's attribute \<^emph>\<open>status\<close>).
\<close>

definition setStatus :: "JobId \<Rightarrow> Status \<Rightarrow> 's world \<Rightarrow> 's world" where
  "setStatus j s w = updJob j (\<lambda>jb. jb\<lparr>status := s\<rparr>) w"

text \<open>
  Modelled from the spec: \<^verbatim>\<open>Job::freeQueuePolicyResources(job)\<close> is not among the
  sources. The spec's final cleanup "releases the queue-policy resources held by self",
  and a policy gives a job up without execution through \<^verbatim>\<open>free(job)\<close>: every policy
  of the object, in order, is told \<^verbatim>\<open>free(job)\<close>.
\<close>

fun freeAll :: "PolicyId list \<Rightarrow> JobPointer \<Rightarrow> 's world \<Rightarrow> 's world" where
  "freeAll [] job w = w"
| "freeAll (p # ps) job w = freeAll ps job (policy_free p job w)"

definition freeQueuePolicyResources :: "JobId \<Rightarrow> JobPointer \<Rightarrow> 's world \<Rightarrow> 's world" where
  "freeQueuePolicyResources this job w = freeAll (queuePolicies (heap w this)) job w"

subsection \<open>WeaverImpl: state, inventory, active count\<close>

text \<open>
  \<^verbatim>\<open>setState_p\<close>. After the constructor \<^verbatim>\<open>m_state\<close> is never null, so \<open>previous\<close> is
  a state. \<^verbatim>\<open>State::activated\<close> is not among the sources: the call is an event.
\<close>

definition setState_p :: "StateId \<Rightarrow> 's world \<Rightarrow> 's world" where
  "setState_p sid w =
     (let previous = m_state w; w1 = w\<lparr>m_state := sid\<rparr>
      in if previous \<noteq> sid then
           (let w2 = emit (State_activated sid) w1;
                w3 = (if sid = Suspended then emit Emit_suspended w2 else w2)
            in emit (Emit_stateChanged sid) w3)
         else w1)"

definition setMaximumNumberOfThreads_p :: "int \<Rightarrow> 's world \<Rightarrow> 's world" where
  "setMaximumNumberOfThreads_p cap w = w\<lparr>m_inventoryMax := cap\<rparr>"

definition reschedule :: "'s world \<Rightarrow> 's world" where
  "reschedule w = emit JobAvailable_wakeAll w"

text \<open>
  The body of the loop of \<^verbatim>\<open>adjustInventory\<close>, \<open>k\<close> times. The new \<^verbatim>\<open>Thread\<close> is a
  fresh object: it is named by the number of threads created before it.
\<close>

fun createThreads :: "nat \<Rightarrow> 's world \<Rightarrow> 's world" where
  "createThreads 0 w = w"
| "createThreads (Suc k) w =
     (let th = m_createdThreads w;
          w1 = w\<lparr>m_inventory := m_inventory w @ [th]\<rparr>;
          w2 = emit (Thread_start th) w1;
          w3 = w2\<lparr>m_createdThreads := Suc (m_createdThreads w2)\<rparr>
      in createThreads k w3)"

definition adjustInventory :: "int \<Rightarrow> 's world \<Rightarrow> 's world" where
  "adjustInventory numberOfNewJobs w =
     (let reserve = m_inventoryMax w - int (length (m_inventory w))
      in if reserve > 0 then createThreads (nat (min reserve numberOfNewJobs)) w else w)"

definition adjustActiveThreadCount :: "int \<Rightarrow> 's world \<Rightarrow> 's world" where
  "adjustActiveThreadCount diff w =
     (let w1 = w\<lparr>m_active := m_active w + diff\<rparr>
      in if m_assignments w1 = [] \<and> m_active w1 = 0 then emit Emit_finished w1 else w1)"

definition incActiveThreadCount :: "'s world \<Rightarrow> 's world" where
  "incActiveThreadCount w = adjustActiveThreadCount 1 w"

definition decActiveThreadCount :: "'s world \<Rightarrow> 's world" where
  "decActiveThreadCount w = emit JobFinished_wakeAll (adjustActiveThreadCount (- 1) w)"

definition blockThreadUntilJobsAreBeingAssigned_locked :: "ThreadId \<Rightarrow> 's world \<Rightarrow> 's world" where
  "blockThreadUntilJobsAreBeingAssigned_locked th w =
     emit (JobAvailable_wait th) (emit (Emit_threadSuspended th) w)"

subsection \<open>WeaverImpl::enqueue_p\<close>

text \<open>
  Modelled from the spec: \<^verbatim>\<open>Job.cpp\<close> is not among the sources. The spec gives the
  callbacks of the base class no effect: \<^verbatim>\<open>Job::aboutToBeQueued_locked\<close> and
  \<^verbatim>\<open>Job::aboutToBeDequeued_locked\<close> do nothing.
\<close>

definition Job_aboutToBeQueued_locked :: "JobId \<Rightarrow> 's world \<Rightarrow> 's world" where
  "Job_aboutToBeQueued_locked this w = w"

definition Job_aboutToBeDequeued_locked :: "JobId \<Rightarrow> 's world \<Rightarrow> 's world" where
  "Job_aboutToBeDequeued_locked this w = w"

text \<open>
  \<^verbatim>\<open>JobCollection::aboutToBeQueued_locked\<close> binds the collection to the weaver and calls
  the base class's. \<^verbatim>\<open>Job::aboutToBeQueued\<close> takes the job's mutex and calls the virtual
  \<^verbatim>\<open>aboutToBeQueued_locked\<close> of the job's class.
\<close>

definition JobCollection_aboutToBeQueued_locked :: "JobId \<Rightarrow> 's world \<Rightarrow> 's world" where
  "JobCollection_aboutToBeQueued_locked this w =
     Job_aboutToBeQueued_locked this (updJob this (\<lambda>jb. jb\<lparr>api := True\<rparr>) w)"

definition aboutToBeQueued :: "JobId \<Rightarrow> 's world \<Rightarrow> 's world" where
  "aboutToBeQueued j w =
     (if isCollection (heap w j) then JobCollection_aboutToBeQueued_locked j w
      else Job_aboutToBeQueued_locked j w)"

declare Job_aboutToBeQueued_locked_def [simp] Job_aboutToBeDequeued_locked_def [simp]
  JobCollection_aboutToBeQueued_locked_def [simp]

text \<open>
  The search for the position: \<open>i\<close> starts at the size of the list and steps down while
  the job before it has a smaller priority than the new job.
\<close>

fun findPosition :: "nat \<Rightarrow> JobId list \<Rightarrow> (JobId \<Rightarrow> int) \<Rightarrow> int \<Rightarrow> nat" where
  "findPosition 0 asg prio p = 0"
| "findPosition (Suc i) asg prio p =
     (if prio (asg ! i) < p then findPosition i asg prio p else Suc i)"

definition insertAt :: "nat \<Rightarrow> 'a \<Rightarrow> 'a list \<Rightarrow> 'a list" where
  "insertAt i x xs = take i xs @ [x] @ drop i xs"

definition enqueueJob :: "JobId \<Rightarrow> 's world \<Rightarrow> 's world" where
  "enqueueJob job w =
     (let w1 = adjustInventory 1 w;
          w2 = aboutToBeQueued job w1;
          i = length (m_assignments w2);
          w3 = (if i > 0 then
                  w2\<lparr>m_assignments :=
                       insertAt (findPosition i (m_assignments w2) (\<lambda>x. priority (heap w2 x))
                                   (priority (heap w2 job)))
                         job (m_assignments w2)\<rparr>
                else w2\<lparr>m_assignments := m_assignments w2 @ [job]\<rparr>);
          w4 = setStatus job Status_Queued w3
      in reschedule w4)"

fun enqueueEach :: "JobPointer list \<Rightarrow> 's world \<Rightarrow> 's world" where
  "enqueueEach [] w = w"
| "enqueueEach (None # jobs) w = enqueueEach jobs w"
| "enqueueEach (Some job # jobs) w = enqueueEach jobs (enqueueJob job w)"

definition enqueue_p :: "JobPointer list \<Rightarrow> 's world \<Rightarrow> 's world" where
  "enqueue_p jobs w = (if jobs = [] then w else enqueueEach jobs w)"

text \<open>
  Modelled from the spec: the state classes are not among the sources. \<^verbatim>\<open>enqueue\<close> is
  dispatched through the current state, which forwards to \<^verbatim>\<open>enqueue_p\<close> in WorkingHard,
  Suspending and Suspended and drops the call in the other states.
\<close>

definition enqueue :: "JobPointer list \<Rightarrow> 's world \<Rightarrow> 's world" where
  "enqueue jobs w =
     (if m_state w \<in> {WorkingHard, Suspending, Suspended} then enqueue_p jobs w else w)"

subsection \<open>JobCollection::finalCleanup\<close>

definition finalCleanup :: "JobId \<Rightarrow> 's world \<Rightarrow> 's world" where
  "finalCleanup this w =
     (let w1 = freeQueuePolicyResources this (self (heap w this)) w;
          w2 = setStatus this Status_Success w1
      in updJob this (\<lambda>jb. jb\<lparr>api := False\<rparr>) w2)"

subsection \<open>Dequeueing\<close>

text \<open>\<^verbatim>\<open>QList::indexOf\<close>: the first index of the pointer, or -1.\<close>

fun indexOf :: "JobId list \<Rightarrow> JobPointer \<Rightarrow> int" where
  "indexOf [] job = - 1"
| "indexOf (x # xs) job =
     (if Some x = job then 0
      else (let r = indexOf xs job in if r = - 1 then - 1 else r + 1))"

text \<open>\<^verbatim>\<open>QList::takeAt\<close>: the index has to be in range.\<close>

definition takeAt :: "int \<Rightarrow> 'a list \<Rightarrow> error + ('a \<times> 'a list)" where
  "takeAt i xs =
     (if 0 \<le> i \<and> i < int (length xs)
      then Inr (xs ! nat i, take (nat i) xs @ drop (Suc (nat i)) xs)
      else Inl IndexOutOfRange)"

text \<open>
  \<^verbatim>\<open>dequeue_p(job)\<close> calls the job's \<^verbatim>\<open>aboutToBeDequeued\<close>; a collection's calls
  \<^verbatim>\<open>dequeueElements\<close>, which dequeues every element through the weaver, and an element
  may be a collection again. How deep this goes is a property of the heap, so
  \<open>dequeue_p\<close> takes fuel, one unit for each level of nesting, and \<open>Inl OutOfFuel\<close>
  says that the fuel did not suffice. The methods of \<^verbatim>\<open>JobCollection\<close> on this path are
  written first, with the weaver's method that they call as the parameter \<open>deq\<close>.

  The loop of \<^verbatim>\<open>dequeueElements\<close> runs over \<^verbatim>\<open>d->elements\<close>, which nothing but
  \<^verbatim>\<open>addJob\<close> changes, and reads \<^verbatim>\<open>d->api\<close> in every round.
\<close>

type_synonym 's dequeue_fn = "JobPointer \<Rightarrow> 's world \<Rightarrow> error + (bool \<times> 's world)"

fun dequeueElements_loop :: "'s dequeue_fn \<Rightarrow> JobId list \<Rightarrow> JobId \<Rightarrow> 's world \<Rightarrow> error + 's world" where
  "dequeueElements_loop deq [] this w = Inr w"
| "dequeueElements_loop deq (e # es) this w =
     (if \<not> api (heap w this) then Inl NullPointer
      else
        (case deq (Some e) w of
           Inl err \<Rightarrow> Inl err
         | Inr (b, w1) \<Rightarrow> dequeueElements_loop deq es this w1))"

definition dequeueElements_with :: "'s dequeue_fn \<Rightarrow> JobId \<Rightarrow> 's world \<Rightarrow> error + 's world" where
  "dequeueElements_with deq this w =
     (if \<not> api (heap w this) then Inr w
      else
        (case dequeueElements_loop deq (elements (heap w this)) this w of
           Inl e \<Rightarrow> Inl e
         | Inr w1 \<Rightarrow>
            (let jobCount = jobCounter (heap w1 this);
                 w2 = updJob this (\<lambda>jb. jb\<lparr>jobCounter := 0\<rparr>) w1
             in if jobCount \<noteq> 0 then Inr (finalCleanup this w2) else Inr w2)))"

text \<open>
  \<^verbatim>\<open>Job::aboutToBeDequeued\<close> takes the job's mutex and calls the virtual
  \<^verbatim>\<open>aboutToBeDequeued_locked\<close> of the job's class. \<^verbatim>\<open>JobCollection\<close>'s calls
  \<^verbatim>\<open>dequeueElements(true)\<close>, clears \<^verbatim>\<open>d->api\<close> and calls the base class's.
\<close>

definition aboutToBeDequeued_with :: "'s dequeue_fn \<Rightarrow> JobId \<Rightarrow> 's world \<Rightarrow> error + 's world" where
  "aboutToBeDequeued_with deq_p j w =
     (if isCollection (heap w j) then
        (case dequeueElements_with deq_p j w of
           Inl e \<Rightarrow> Inl e
         | Inr w1 \<Rightarrow>
            Inr (Job_aboutToBeDequeued_locked j (updJob j (\<lambda>jb. jb\<lparr>api := False\<rparr>) w1)))
      else Inr (Job_aboutToBeDequeued_locked j w))"

primrec dequeue_p :: "nat \<Rightarrow> JobPointer \<Rightarrow> 's world \<Rightarrow> error + (bool \<times> 's world)" where
  "dequeue_p 0 job w = Inl OutOfFuel"
| "dequeue_p (Suc n) job w =
     (let position = indexOf (m_assignments w) job
      in if position \<noteq> - 1 then
           (case job of
              None \<Rightarrow> Inl NullPointer
            | Some j \<Rightarrow>
               (case aboutToBeDequeued_with (dequeue_p n) j w of
                  Inl e \<Rightarrow> Inl e
                | Inr w1 \<Rightarrow>
                   (let newPosition = indexOf (m_assignments w1) job
                    in case takeAt newPosition (m_assignments w1) of
                         Inl e \<Rightarrow> Inl e
                       | Inr (job', rest) \<Rightarrow>
                          (let w2 = w1\<lparr>m_assignments := rest\<rparr>;
                               w3 = setStatus job' Status_New w2
                           in Inr (True, emit JobFinished_wakeAll w3)))))
         else Inr (False, w))"

text \<open>
  Modelled from the spec: the state classes are not among the sources. \<^verbatim>\<open>dequeue(job)\<close>
  is dispatched through the current state, which rejects it in InConstruction and
  Destructed and forwards it to \<^verbatim>\<open>dequeue_p\<close> in the other states.
\<close>

definition dequeue :: "nat \<Rightarrow> JobPointer \<Rightarrow> 's world \<Rightarrow> error + (bool \<times> 's world)" where
  "dequeue n job w =
     (if m_state w \<in> {InConstruction, Destructed} then Inr (False, w) else dequeue_p n job w)"

definition aboutToBeDequeued :: "nat \<Rightarrow> JobId \<Rightarrow> 's world \<Rightarrow> error + 's world" where
  "aboutToBeDequeued n j w = aboutToBeDequeued_with (dequeue_p n) j w"

definition dequeueElements :: "nat \<Rightarrow> JobId \<Rightarrow> bool \<Rightarrow> 's world \<Rightarrow> error + 's world" where
  "dequeueElements n this queueApiIsLocked w =
     dequeueElements_with (if queueApiIsLocked then dequeue_p n else dequeue n) this w"

subsection \<open>Framing facts\<close>

lemma emit_fields [simp]:
  "m_assignments (emit e w) = m_assignments w"
  "m_inventory (emit e w) = m_inventory w"
  "m_inventoryMax (emit e w) = m_inventoryMax w"
  "m_active (emit e w) = m_active w"
  "m_state (emit e w) = m_state w"
  "m_createdThreads (emit e w) = m_createdThreads w"
  "heap (emit e w) = heap w"
  "canRun (emit e w) = canRun w"
  "release (emit e w) = release w"
  "free (emit e w) = free w"
  "policyState (emit e w) = policyState w"
  "trace (emit e w) = trace w @ [e]"
  by (simp_all add: emit_def)

lemma updJob_fields [simp]:
  "m_assignments (updJob j f w) = m_assignments w"
  "m_inventory (updJob j f w) = m_inventory w"
  "m_inventoryMax (updJob j f w) = m_inventoryMax w"
  "m_active (updJob j f w) = m_active w"
  "m_state (updJob j f w) = m_state w"
  "m_createdThreads (updJob j f w) = m_createdThreads w"
  "heap (updJob j f w) = (heap w)(j := f (heap w j))"
  "canRun (updJob j f w) = canRun w"
  "release (updJob j f w) = release w"
  "free (updJob j f w) = free w"
  "policyState (updJob j f w) = policyState w"
  "trace (updJob j f w) = trace w"
  by (simp_all add: updJob_def)

text \<open>A call into a policy changes the policy state and the trace, nothing else.\<close>

definition policyFrame :: "'s world \<Rightarrow> 's world \<Rightarrow> bool" where
  "policyFrame w w' = (w' = w\<lparr>policyState := policyState w', trace := trace w'\<rparr>)"

lemma policyFrame_refl [simp]: "policyFrame w w"
  by (simp add: policyFrame_def)

lemma policyFrame_trans: "policyFrame w w1 \<Longrightarrow> policyFrame w1 w2 \<Longrightarrow> policyFrame w w2"
proof -
  assume a: "policyFrame w w1" and b: "policyFrame w1 w2"
  have "w2 = w1\<lparr>policyState := policyState w2, trace := trace w2\<rparr>"
    using b by (simp add: policyFrame_def)
  also have "w1 = w\<lparr>policyState := policyState w1, trace := trace w1\<rparr>"
    using a by (simp add: policyFrame_def)
  finally show ?thesis by (simp add: policyFrame_def)
qed

lemma policyFrame_canRun: "policyFrame w (snd (policy_canRun p job w))"
  by (simp add: policyFrame_def policy_canRun_def emit_def split: prod.splits)

lemma policyFrame_release: "policyFrame w (policy_release p job w)"
  by (simp add: policyFrame_def policy_release_def emit_def)

lemma policyFrame_free: "policyFrame w (policy_free p job w)"
  by (simp add: policyFrame_def policy_free_def emit_def)

lemma policyFrame_acquire: "policyFrame w (snd (snd (acquire ps job acq w)))"
proof (induction ps arbitrary: acq w)
  case Nil
  then show ?case by simp
next
  case (Cons p ps)
  obtain ok w1 where c: "policy_canRun p job w = (ok, w1)" by (cases "policy_canRun p job w")
  have f1: "policyFrame w w1" using policyFrame_canRun [of w p job] c by simp
  show ?case
  proof (cases ok)
    case True
    then show ?thesis using c f1 Cons.IH [where acq = "acq @ [p]" and w = w1] by (auto intro: policyFrame_trans)
  next
    case False
    then show ?thesis using c f1 by simp
  qed
qed

lemma policyFrame_releaseAll: "policyFrame w (releaseAll ps job w)"
  by (induction ps arbitrary: w) (auto intro: policyFrame_trans policyFrame_release)

lemma policyFrame_canBeExecuted: "policyFrame w (snd (canBeExecuted job w))"
proof -
  show ?thesis
    unfolding canBeExecuted_def Let_def
    using policyFrame_acquire [of w "queuePolicies (heap w job)" job "[]"]
    by (auto split: prod.splits intro: policyFrame_trans policyFrame_releaseAll)
qed

lemma policyFrame_fields:
  assumes "policyFrame w w'"
  shows "m_assignments w' = m_assignments w" "m_inventory w' = m_inventory w"
    "m_inventoryMax w' = m_inventoryMax w" "m_active w' = m_active w"
    "m_state w' = m_state w" "m_createdThreads w' = m_createdThreads w"
    "heap w' = heap w" "canRun w' = canRun w" "release w' = release w" "free w' = free w"
proof -
  note e = assms [unfolded policyFrame_def]
  show "m_assignments w' = m_assignments w" using arg_cong [OF e, of m_assignments] by simp
  show "m_inventory w' = m_inventory w" using arg_cong [OF e, of m_inventory] by simp
  show "m_inventoryMax w' = m_inventoryMax w" using arg_cong [OF e, of m_inventoryMax] by simp
  show "m_active w' = m_active w" using arg_cong [OF e, of m_active] by simp
  show "m_state w' = m_state w" using arg_cong [OF e, of m_state] by simp
  show "m_createdThreads w' = m_createdThreads w" using arg_cong [OF e, of m_createdThreads] by simp
  show "heap w' = heap w" using arg_cong [OF e, of heap] by simp
  show "canRun w' = canRun w" using arg_cong [OF e, of canRun] by simp
  show "release w' = release w" using arg_cong [OF e, of release] by simp
  show "free w' = free w" using arg_cong [OF e, of free] by simp
qed

lemma canBeExecuted_assignments:
  "canBeExecuted job w = (ok, w') \<Longrightarrow> m_assignments w' = m_assignments w"
  using policyFrame_canBeExecuted [of w job] by (simp add: policyFrame_fields)


subsection \<open>WeaverImpl::takeFirstAvailableJobOrSuspendOrWait\<close>

text \<open>\<^verbatim>\<open>QList::removeAt\<close> at an index in range.\<close>

definition removeAt :: "nat \<Rightarrow> 'a list \<Rightarrow> 'a list" where
  "removeAt i xs = take i xs @ drop (Suc i) xs"

text \<open>
  The loop over the candidates. \<^verbatim>\<open>canBeExecuted\<close> leaves the assignments as they
  are, so the distance of \<open>index\<close> from the end of the list decreases.
\<close>

function findFirstAvailable :: "nat \<Rightarrow> 's world \<Rightarrow> JobPointer \<times> 's world" where
  "findFirstAvailable index w =
     (if index < length (m_assignments w) then
        (let candidate = m_assignments w ! index
         in case canBeExecuted candidate w of
              (ok, w1) \<Rightarrow>
                if ok then (Some candidate, w1\<lparr>m_assignments := removeAt index (m_assignments w1)\<rparr>)
                else findFirstAvailable (Suc index) w1)
      else (None, w))"
  by pat_completeness auto
termination
proof (relation "measure (\<lambda>(index, w). length (m_assignments w) - index)")
  show "wf (measure (\<lambda>(index, w). length (m_assignments w) - index))" by simp
next
  fix index :: nat and w :: "'s world" and candidate x y
  assume "index < length (m_assignments w)" and "(x, y) = canBeExecuted candidate w"
  then show "((Suc index, y), index, w) \<in> measure (\<lambda>(index, w). length (m_assignments w) - index)"
    using canBeExecuted_assignments [of candidate w x y] by simp
qed

definition takeFirstAvailableJobOrSuspendOrWait ::
    "ThreadId \<Rightarrow> bool \<Rightarrow> bool \<Rightarrow> bool \<Rightarrow> 's world \<Rightarrow> JobPointer \<times> 's world" where
  "takeFirstAvailableJobOrSuspendOrWait th threadWasBusy suspendIfInactive justReturning w =
     (let w1 = (if threadWasBusy then decActiveThreadCount w else w)
      in if suspendIfInactive \<and> m_active w1 = 0 \<and> m_state w1 = Suspending then
           (None, setState_p Suspended w1)
         else if m_state w1 \<noteq> WorkingHard \<or> justReturning then (None, w1)
         else
           (case findFirstAvailable 0 w1 of
              (Some next, w2) \<Rightarrow> (Some next, incActiveThreadCount w2)
            | (None, w2) \<Rightarrow> (None, blockThreadUntilJobsAreBeingAssigned_locked th w2)))"

subsection \<open>What dequeueing leaves as it is\<close>

text \<open>
  Dequeueing only removes jobs from the assignments, and it changes neither the
  weaver's other members nor the priority, the policies, the class or the elements of
  any job.
\<close>

definition staticJob :: "Job \<Rightarrow> Job \<Rightarrow> bool" where
  "staticJob a b =
     (priority b = priority a \<and> queuePolicies b = queuePolicies a \<and>
      isCollection b = isCollection a \<and> elements b = elements a)"

definition dequeueFrame :: "'s world \<Rightarrow> 's world \<Rightarrow> bool" where
  "dequeueFrame w w' =
     (subseq (m_assignments w') (m_assignments w) \<and>
      m_inventory w' = m_inventory w \<and> m_inventoryMax w' = m_inventoryMax w \<and>
      m_active w' = m_active w \<and> m_state w' = m_state w \<and>
      m_createdThreads w' = m_createdThreads w \<and>
      canRun w' = canRun w \<and> release w' = release w \<and> free w' = free w \<and>
      (\<forall>j. staticJob (heap w j) (heap w' j)))"

lemma dequeueFrame_refl [simp]: "dequeueFrame w w"
  by (simp add: dequeueFrame_def staticJob_def)

lemma dequeueFrame_trans: "dequeueFrame w w1 \<Longrightarrow> dequeueFrame w1 w2 \<Longrightarrow> dequeueFrame w w2"
  unfolding dequeueFrame_def staticJob_def
  by (auto intro: subseq_order.trans)

lemma dequeueFrame_policyFrame: "policyFrame w w' \<Longrightarrow> dequeueFrame w w'"
  by (simp add: dequeueFrame_def staticJob_def policyFrame_fields)

lemma policyFrame_freeAll: "policyFrame w (freeAll ps job w)"
  by (induction ps arbitrary: w) (auto intro: policyFrame_trans policyFrame_free)

lemma dequeueFrame_updJob:
  "staticJob (heap w j) (f (heap w j)) \<Longrightarrow> dequeueFrame w (updJob j f w)"
  by (simp add: dequeueFrame_def staticJob_def)

lemma dequeueFrame_finalCleanup: "dequeueFrame w (finalCleanup this w)"
proof -
  let ?w1 = "freeQueuePolicyResources this (self (heap w this)) w"
  have 1: "dequeueFrame w ?w1"
    by (simp add: freeQueuePolicyResources_def dequeueFrame_policyFrame policyFrame_freeAll)
  have 2: "dequeueFrame ?w1 (setStatus this Status_Success ?w1)"
    by (simp add: setStatus_def dequeueFrame_updJob staticJob_def)
  have 3: "dequeueFrame (setStatus this Status_Success ?w1)
             (updJob this (\<lambda>jb. jb\<lparr>api := False\<rparr>) (setStatus this Status_Success ?w1))"
    by (simp add: dequeueFrame_updJob staticJob_def)
  show ?thesis
    unfolding finalCleanup_def Let_def
    using 1 2 3 by (blast intro: dequeueFrame_trans)
qed

definition framed :: "'s dequeue_fn \<Rightarrow> bool" where
  "framed deq = (\<forall>job w b w'. deq job w = Inr (b, w') \<longrightarrow> dequeueFrame w w')"

lemma dequeueFrame_loop:
  "framed deq \<Longrightarrow> dequeueElements_loop deq es this w = Inr w' \<Longrightarrow> dequeueFrame w w'"
proof (induction es arbitrary: w)
  case Nil
  then show ?case by simp
next
  case (Cons e es)
  from Cons.prems(2) obtain b w1 where
    d: "deq (Some e) w = Inr (b, w1)" and l: "dequeueElements_loop deq es this w1 = Inr w'"
    by (auto split: if_splits sum.splits)
  from Cons.prems(1) d have "dequeueFrame w w1" by (auto simp: framed_def)
  moreover have "dequeueFrame w1 w'" using Cons.IH [OF Cons.prems(1) l] .
  ultimately show ?case by (rule dequeueFrame_trans)
qed

lemma dequeueFrame_dequeueElements_with:
  assumes "framed deq" and "dequeueElements_with deq this w = Inr w'"
  shows "dequeueFrame w w'"
proof (cases "api (heap w this)")
  case False
  with assms(2) show ?thesis by (simp add: dequeueElements_with_def)
next
  case True
  with assms(2) obtain w1 where
    l: "dequeueElements_loop deq (elements (heap w this)) this w = Inr w1" and
    r: "w' = (let w2 = updJob this (\<lambda>jb. jb\<lparr>jobCounter := 0\<rparr>) w1
              in if jobCounter (heap w1 this) \<noteq> 0 then finalCleanup this w2 else w2)"
    by (auto simp: dequeueElements_with_def Let_def split: sum.splits if_splits)
  have 1: "dequeueFrame w w1" using dequeueFrame_loop [OF assms(1) l] .
  have 2: "dequeueFrame w1 (updJob this (\<lambda>jb. jb\<lparr>jobCounter := 0\<rparr>) w1)"
    by (simp add: dequeueFrame_updJob staticJob_def)
  show ?thesis
    using r 1 2 dequeueFrame_finalCleanup [of "updJob this (\<lambda>jb. jb\<lparr>jobCounter := 0\<rparr>) w1" this]
    by (auto simp: Let_def intro: dequeueFrame_trans split: if_splits)
qed

lemma dequeueFrame_aboutToBeDequeued_with:
  assumes "framed deq" and "aboutToBeDequeued_with deq j w = Inr w'"
  shows "dequeueFrame w w'"
proof (cases "isCollection (heap w j)")
  case False
  with assms(2) show ?thesis by (simp add: aboutToBeDequeued_with_def)
next
  case True
  with assms(2) obtain w1 where
    l: "dequeueElements_with deq j w = Inr w1" and r: "w' = updJob j (\<lambda>jb. jb\<lparr>api := False\<rparr>) w1"
    by (auto simp: aboutToBeDequeued_with_def split: sum.splits)
  have 1: "dequeueFrame w w1" using dequeueFrame_dequeueElements_with [OF assms(1) l] .
  have 2: "dequeueFrame w1 w'" unfolding r by (simp add: dequeueFrame_updJob staticJob_def)
  show ?thesis using 1 2 by (rule dequeueFrame_trans)
qed

lemma takeAt_Inr:
  "takeAt i xs = Inr (x, rest) \<Longrightarrow> 0 \<le> i \<and> i < int (length xs) \<and> x = xs ! nat i \<and> rest = removeAt (nat i) xs"
  by (auto simp: takeAt_def removeAt_def split: if_splits)

lemma subseq_removeAt: "subseq (removeAt i xs) xs"
proof -
  have d: "subseq (drop (Suc i) xs) (drop i xs)"
  proof (cases "i < length xs")
    case True
    then have "drop i xs = xs ! i # drop (Suc i) xs" by (simp add: Cons_nth_drop_Suc)
    then show ?thesis by (metis subseq_Cons' subseq_order.order_refl)
  next
    case False
    then show ?thesis by simp
  qed
  have "subseq (take i xs @ drop (Suc i) xs) (take i xs @ drop i xs)"
    using d by (simp only: subseq_append')
  then show ?thesis by (simp add: removeAt_def)
qed

lemma framed_dequeue_p: "framed (dequeue_p n :: 's dequeue_fn)"
proof (induction n)
  case 0
  then show ?case by (simp add: framed_def)
next
  case (Suc n)
  show ?case
    unfolding framed_def
  proof (intro allI impI)
    fix job and w :: "'s world" and b w'
    assume a: "dequeue_p (Suc n) job w = Inr (b, w')"
    show "dequeueFrame w w'"
    proof (cases "indexOf (m_assignments w) job \<noteq> - 1")
      case False
      with a show ?thesis by (simp add: Let_def)
    next
      case True
      with a obtain j w1 x rest where
        j: "job = Some j" and
        c: "aboutToBeDequeued_with (dequeue_p n) j w = Inr w1" and
        t: "takeAt (indexOf (m_assignments w1) job) (m_assignments w1) = Inr (x, rest)" and
        r: "w' = emit JobFinished_wakeAll (setStatus x Status_New (w1\<lparr>m_assignments := rest\<rparr>))"
        by (auto simp: Let_def split: option.splits sum.splits prod.splits)
      have 1: "dequeueFrame w w1" using dequeueFrame_aboutToBeDequeued_with [OF Suc c] .
      have "subseq rest (m_assignments w1)"
        using takeAt_Inr [OF t] subseq_removeAt by auto
      then have 2: "dequeueFrame w1 w'"
        unfolding r by (simp add: dequeueFrame_def staticJob_def setStatus_def)
      show ?thesis using 1 2 by (rule dequeueFrame_trans)
    qed
  qed
qed

lemma dequeueFrame_aboutToBeDequeued:
  "aboutToBeDequeued n j w = Inr w' \<Longrightarrow> dequeueFrame w w'"
  unfolding aboutToBeDequeued_def
  by (rule dequeueFrame_aboutToBeDequeued_with [OF framed_dequeue_p])

subsection \<open>WeaverImpl::dequeue_p()\<close>

text \<open>
  The loop of the remove-all \<^verbatim>\<open>dequeue_p()\<close> reads \<^verbatim>\<open>m_assignments\<close> in every round,
  and a collection's \<^verbatim>\<open>aboutToBeDequeued\<close> removes jobs from it in between. A callback
  never makes the list longer, so the loop ends.
\<close>

function dequeueAll_loop :: "nat \<Rightarrow> nat \<Rightarrow> 's world \<Rightarrow> error + 's world" where
  "dequeueAll_loop n index w =
     (if index < length (m_assignments w) then
        (case aboutToBeDequeued n (m_assignments w ! index) w of
           Inl e \<Rightarrow> Inl e
         | Inr w1 \<Rightarrow> dequeueAll_loop n (Suc index) w1)
      else Inr w)"
  by pat_completeness auto
termination
proof (relation "measure (\<lambda>(n, index, w). length (m_assignments w) - index)")
  show "wf (measure (\<lambda>(n, index, w). length (m_assignments w) - index))" by simp
next
  fix n index :: nat and w w1 :: "'s world"
  assume i: "index < length (m_assignments w)"
    and c: "aboutToBeDequeued n (m_assignments w ! index) w = Inr w1"
  have "length (m_assignments w1) \<le> length (m_assignments w)"
    using dequeueFrame_aboutToBeDequeued [OF c] by (auto simp: dequeueFrame_def dest: list_emb_length)
  with i show "((n, Suc index, w1), n, index, w)
                 \<in> measure (\<lambda>(n, index, w). length (m_assignments w) - index)"
    by simp
qed

definition dequeue_p_all :: "nat \<Rightarrow> 's world \<Rightarrow> error + 's world" where
  "dequeue_p_all n w =
     (case dequeueAll_loop n 0 w of
        Inl e \<Rightarrow> Inl e
      | Inr w1 \<Rightarrow> Inr (w1\<lparr>m_assignments := []\<rparr>))"

subsection \<open>JobCollection\<close>

text \<open>
  The locked block at the head of \<^verbatim>\<open>JobCollection::execute\<close>: it records the pointer
  under which the collection runs and sets \<^verbatim>\<open>selfIsExecuting\<close>. The call of
  \<^verbatim>\<open>Job::execute\<close> that follows it is not among the sources.
\<close>

definition JobCollection_execute_begin :: "JobId \<Rightarrow> JobPointer \<Rightarrow> 's world \<Rightarrow> 's world" where
  "JobCollection_execute_begin this job w =
     updJob this (\<lambda>jb. jb\<lparr>self := job, selfIsExecuting := True\<rparr>) w"

definition enqueueElements :: "JobId \<Rightarrow> 's world \<Rightarrow> error + 's world" where
  "enqueueElements this w =
     (let count = int (length (elements (heap w this)));
          w1 = updJob this (\<lambda>jb. jb\<lparr>jobCounter := count + 1\<rparr>) w
      in if api (heap w1 this) then Inr (enqueue (map Some (elements (heap w1 this))) w1)
         else Inl NullPointer)"

text \<open>
  \<^verbatim>\<open>elementFinished\<close>. The executor classes are not among the sources: the call
  \<^verbatim>\<open>executor()->defaultEnd(d->self, thread)\<close> is an event.
\<close>

definition elementFinished :: "JobId \<Rightarrow> JobPointer \<Rightarrow> ThreadId \<Rightarrow> 's world \<Rightarrow> error + 's world" where
  "elementFinished this job thread w =
     (case (if selfIsExecuting (heap w this) then
              (case enqueueElements this w of
                 Inl e \<Rightarrow> Inl e
               | Inr w0 \<Rightarrow> Inr (updJob this (\<lambda>jb. jb\<lparr>selfIsExecuting := False\<rparr>) w0))
            else Inr w) of
        Inl e \<Rightarrow> Inl e
      | Inr w1 \<Rightarrow>
         (let remainingJobs = jobCounter (heap w1 this) - 1;
              w2 = updJob this (\<lambda>jb. jb\<lparr>jobCounter := remainingJobs\<rparr>) w1
          in if remainingJobs = 0 then
               (let w3 = finalCleanup this w2;
                    w4 = emit (Executor_defaultEnd this (self (heap w3 this)) thread) w3
                in Inr (updJob this (\<lambda>jb. jb\<lparr>self := None\<rparr>) w4))
             else Inr w2))"

subsection \<open>JobCollection::stop and the mutexes on its path\<close>

text \<open>
  The mutex of the weaver and the mutex of each job. The weaver's is constructed
  \<^verbatim>\<open>QMutex::NonRecursive\<close>, and the code asserts "the mutex is held" of both kinds by
  \<^verbatim>\<open>!mutex()->tryLock()\<close>, which holds for the thread that owns the mutex only when the
  mutex is not recursive.
\<close>

datatype mutex = WeaverMutex | JobMutex JobId

text \<open>
  A \<^verbatim>\<open>QMutexLocker\<close> locks the mutex where it is declared and unlocks it at the end of
  the block. The mutexes that the thread holds are therefore a parameter \<open>held\<close> of
  every call, and the block runs with the mutex added to them. Locking a mutex of
  \<open>held\<close> waits for the thread itself.
\<close>

definition QMutexLocker :: "mutex \<Rightarrow> mutex set \<Rightarrow> (mutex set \<Rightarrow> error + 'a) \<Rightarrow> error + 'a" where
  "QMutexLocker m held block = (if m \<in> held then Inl Deadlock else block (insert m held))"

text \<open>
  Modelled from the spec: \<^verbatim>\<open>Job.cpp\<close> is not among the sources. \<^verbatim>\<open>Job::aboutToBeDequeued\<close>
  takes the job's mutex, the inner lock of the spec's lock order, and calls the virtual
  \<^verbatim>\<open>aboutToBeDequeued_locked\<close>: \<^verbatim>\<open>WeaverImpl::dequeue_p\<close> calls it without the job's
  mutex, and \<^verbatim>\<open>JobCollection::aboutToBeDequeued_locked\<close> asserts on entry that the mutex
  is held.
\<close>

definition Job_aboutToBeDequeued ::
    "(mutex set \<Rightarrow> 's dequeue_fn) \<Rightarrow> mutex set \<Rightarrow> JobId \<Rightarrow> 's world \<Rightarrow> error + 's world" where
  "Job_aboutToBeDequeued deq_p held j w =
     QMutexLocker (JobMutex j) held (\<lambda>held1. aboutToBeDequeued_with (deq_p held1) j w)"

text \<open>
  \<^verbatim>\<open>WeaverImpl::dequeue_p(job)\<close> once more, as a thread that holds the mutexes \<open>held\<close>
  runs it: the callback of the job is \<^verbatim>\<open>Job::aboutToBeDequeued\<close>, which locks.
\<close>

primrec dequeue_p_holding :: "nat \<Rightarrow> mutex set \<Rightarrow> JobPointer \<Rightarrow> 's world \<Rightarrow> error + (bool \<times> 's world)" where
  "dequeue_p_holding 0 held job w = Inl OutOfFuel"
| "dequeue_p_holding (Suc n) held job w =
     (let position = indexOf (m_assignments w) job
      in if position \<noteq> - 1 then
           (case job of
              None \<Rightarrow> Inl NullPointer
            | Some j \<Rightarrow>
               (case Job_aboutToBeDequeued (dequeue_p_holding n) held j w of
                  Inl e \<Rightarrow> Inl e
                | Inr w1 \<Rightarrow>
                   (let newPosition = indexOf (m_assignments w1) job
                    in case takeAt newPosition (m_assignments w1) of
                         Inl e \<Rightarrow> Inl e
                       | Inr (job', rest) \<Rightarrow>
                          (let w2 = w1\<lparr>m_assignments := rest\<rparr>;
                               w3 = setStatus job' Status_New w2
                           in Inr (True, emit JobFinished_wakeAll w3)))))
         else Inr (False, w))"

text \<open>
  Modelled from the spec: the state classes are not among the sources. \<^verbatim>\<open>dequeue(job)\<close>
  takes the weaver's mutex and is dispatched through the current state, which rejects it
  in InConstruction and Destructed and forwards it to \<^verbatim>\<open>dequeue_p\<close> in the other states.
\<close>

definition dequeue_holding :: "nat \<Rightarrow> mutex set \<Rightarrow> JobPointer \<Rightarrow> 's world \<Rightarrow> error + (bool \<times> 's world)" where
  "dequeue_holding n held job w =
     QMutexLocker WeaverMutex held
       (\<lambda>held1. if m_state w \<in> {InConstruction, Destructed} then Inr (False, w)
                else dequeue_p_holding n held1 job w)"

text \<open>
  \<^verbatim>\<open>dequeueElements(queueApiIsLocked)\<close> goes through \<^verbatim>\<open>dequeue_p\<close> when the caller holds
  the weaver's mutex and through \<^verbatim>\<open>dequeue\<close> when not.
\<close>

definition dequeueElements_holding ::
    "nat \<Rightarrow> mutex set \<Rightarrow> JobId \<Rightarrow> bool \<Rightarrow> 's world \<Rightarrow> error + 's world" where
  "dequeueElements_holding n held this queueApiIsLocked w =
     dequeueElements_with
       (if queueApiIsLocked then dequeue_p_holding n held else dequeue_holding n held) this w"

text \<open>
  \<^verbatim>\<open>stop\<close> takes the collection's mutex and keeps it to its end, across the call of
  \<^verbatim>\<open>dequeue\<close> on the collection itself and across \<^verbatim>\<open>dequeueElements(false)\<close>.
\<close>

definition stop :: "nat \<Rightarrow> mutex set \<Rightarrow> JobId \<Rightarrow> 's world \<Rightarrow> error + 's world" where
  "stop n held this w =
     QMutexLocker (JobMutex this) held
       (\<lambda>held1.
          if api (heap w this) then
            (case dequeue_holding n held1 (Some this) w of
               Inl e \<Rightarrow> Inl e
             | Inr (ok, w1) \<Rightarrow>
                if \<not> ok then dequeueElements_holding n held1 this False w1 else Inr w1)
          else Inr w)"

subsection \<open>Refused candidates\<close>

text \<open>
  \<^verbatim>\<open>canBeExecuted\<close> changes the state of the policies, so whether a candidate is
  admitted depends on the attempts before it. \<open>refusedAll js w\<close> tries the jobs of
  \<open>js\<close> in turn, starting in \<open>w\<close>: it is the world after these attempts if every one
  of them was refused, and \<open>None\<close> if one was admitted.
\<close>

fun refusedAll :: "JobId list \<Rightarrow> 's world \<Rightarrow> 's world option" where
  "refusedAll [] w = Some w"
| "refusedAll (j # js) w =
     (case canBeExecuted j w of (ok, w1) \<Rightarrow> if ok then None else refusedAll js w1)"

section \<open>The weaver as a transition system\<close>

text \<open>The non-null jobs of the vector handed to \<^verbatim>\<open>enqueue_p\<close>, in order.\<close>

fun nonNull :: "JobPointer list \<Rightarrow> JobId list" where
  "nonNull [] = []"
| "nonNull (None # jobs) = nonNull jobs"
| "nonNull (Some job # jobs) = job # nonNull jobs"

text \<open>
  The order of the assignments: \<open>a\<close> may stand before \<open>b\<close> when its priority is not
  smaller.
\<close>

definition byPriority :: "'s world \<Rightarrow> JobId \<Rightarrow> JobId \<Rightarrow> bool" where
  "byPriority w a b = (priority (heap w a) \<ge> priority (heap w b))"

definition sortedQ :: "'s world \<Rightarrow> bool" where
  "sortedQ w = sorted_wrt (byPriority w) (m_assignments w)"

text \<open>
  The calls that change the weaver. A state of the system is the world together with the
  set of the threads that hold a job.
\<close>

datatype op =
    Enqueue "JobPointer list"
  | Dequeue JobPointer
  | DequeueAll
  | SetMaximumNumberOfThreads int
  | SetState StateId
  | ApplyForWork ThreadId bool bool
  | ElementFinished JobId JobPointer ThreadId
  | Stop JobId

type_synonym 's sys = "'s world \<times> ThreadId set"

text \<open>
  Modelled from the spec: \<^verbatim>\<open>Thread.cpp\<close> is not among the sources. A worker is a
  thread of the inventory in a loop "requesting work, executing, reporting": it asks for
  work with \<^verbatim>\<open>wasBusy\<close> true exactly when it got a job from its previous request, and it
  holds a job from a request that returned one until its next request.

  A step has no result where the fuel of a dequeue does not suffice, where
  \<^verbatim>\<open>setMaximumNumberOfThreads\<close> is called with a cap that is not positive, where the
  thread that applies for work is not in the inventory, where \<^verbatim>\<open>elementFinished\<close>
  calls through a null pointer, and where \<^verbatim>\<open>stop\<close>, called by a thread that holds no
  mutex, does not return.
\<close>

fun step :: "nat \<Rightarrow> op \<Rightarrow> 's sys \<Rightarrow> 's sys option" where
  "step n (Enqueue jobs) (w, B) = Some (enqueue_p jobs w, B)"
| "step n (Dequeue job) (w, B) =
     (case dequeue_p n job w of Inl e \<Rightarrow> None | Inr (ok, w') \<Rightarrow> Some (w', B))"
| "step n DequeueAll (w, B) =
     (case dequeue_p_all n w of Inl e \<Rightarrow> None | Inr w' \<Rightarrow> Some (w', B))"
| "step n (SetMaximumNumberOfThreads cap) (w, B) =
     (if cap > 0 then Some (setMaximumNumberOfThreads_p cap w, B) else None)"
| "step n (SetState sid) (w, B) = Some (setState_p sid w, B)"
| "step n (ApplyForWork th suspendIfInactive justReturning) (w, B) =
     (if th \<in> set (m_inventory w) then
        (case takeFirstAvailableJobOrSuspendOrWait th (th \<in> B) suspendIfInactive justReturning w of
           (None, w') \<Rightarrow> Some (w', B - {th})
         | (Some job, w') \<Rightarrow> Some (w', insert th B))
      else None)"
| "step n (ElementFinished this job th) (w, B) =
     (case elementFinished this job th w of Inl e \<Rightarrow> None | Inr w' \<Rightarrow> Some (w', B))"
| "step n (Stop this) (w, B) =
     (case stop n {} this w of Inl e \<Rightarrow> None | Inr w' \<Rightarrow> Some (w', B))"

fun exec :: "nat \<Rightarrow> op list \<Rightarrow> 's sys \<Rightarrow> 's sys option" where
  "exec n [] s = Some s"
| "exec n (x # xs) s = (case step n x s of None \<Rightarrow> None | Some s' \<Rightarrow> exec n xs s')"

text \<open>
  Whether every cap that a run sets is at least the number of threads in the inventory
  at that moment.
\<close>

fun capsCoverInventory :: "nat \<Rightarrow> op list \<Rightarrow> 's sys \<Rightarrow> bool" where
  "capsCoverInventory n [] s = True"
| "capsCoverInventory n (x # xs) s =
     ((case x of SetMaximumNumberOfThreads cap \<Rightarrow> currentNumberOfThreads_p (fst s) \<le> cap
               | _ \<Rightarrow> True) \<and>
      (case step n x s of None \<Rightarrow> True | Some s' \<Rightarrow> capsCoverInventory n xs s'))"

text \<open>
  The threads of the inventory are distinct objects, created by the weaver; and what every
  step but worker assignment and \<^verbatim>\<open>setMaximumNumberOfThreads_p\<close> does to the weaver.
\<close>

definition threadsOK :: "'s world \<Rightarrow> bool" where
  "threadsOK w = (distinct (m_inventory w) \<and> (\<forall>t \<in> set (m_inventory w). t < m_createdThreads w))"

definition grows :: "'s world \<Rightarrow> 's world \<Rightarrow> bool" where
  "grows w w' =
     (m_active w' = m_active w \<and> m_inventoryMax w' = m_inventoryMax w \<and>
      prefix (m_inventory w) (m_inventory w') \<and>
      (threadsOK w \<longrightarrow> threadsOK w') \<and>
      int (length (m_inventory w')) \<le> max (int (length (m_inventory w))) (m_inventoryMax w) \<and>
      (\<forall>j. staticJob (heap w j) (heap w' j)) \<and>
      (sortedQ w \<longrightarrow> sortedQ w'))"

definition inv :: "'s sys \<Rightarrow> bool" where
  "inv s = (case s of (w, B) \<Rightarrow>
     threadsOK w \<and> finite B \<and> B \<subseteq> set (m_inventory w) \<and> m_active w = int (card B) \<and> sortedQ w)"

section \<open>Nesting of collections\<close>

text \<open>
  \<open>nested d h j\<close>: in the heap \<open>h\<close> the job \<open>j\<close> holds collections in collections at
  most \<open>d\<close> deep; a job that is not a collection is nested 0 deep. A collection that
  contains itself, directly or through its elements, is nested at no depth.
\<close>

fun nested :: "nat \<Rightarrow> (JobId \<Rightarrow> Job) \<Rightarrow> JobId \<Rightarrow> bool" where
  "nested 0 h j = (\<not> isCollection (h j))"
| "nested (Suc d) h j = (isCollection (h j) \<longrightarrow> (\<forall>e \<in> set (elements (h j)). nested d h e))"

text \<open>
  \<open>confined T w w'\<close>: from \<open>w\<close> to \<open>w'\<close> only jobs of \<open>T\<close> changed or left the
  assignments. A dequeue function is confining at depth \<open>d\<close> when dequeueing a job
  nested \<open>d\<close> deep touches only jobs nested \<open>d\<close> deep, and returning when it returns for
  every such job.
\<close>

definition confined :: "JobId set \<Rightarrow> 's world \<Rightarrow> 's world \<Rightarrow> bool" where
  "confined T w w' =
     (\<forall>x. x \<notin> T \<longrightarrow> heap w' x = heap w x \<and> (x \<in> set (m_assignments w) \<longrightarrow> x \<in> set (m_assignments w')))"

definition confining :: "nat \<Rightarrow> 's dequeue_fn \<Rightarrow> bool" where
  "confining d deq =
     (\<forall>e v ok v'. deq (Some e) v = Inr (ok, v') \<longrightarrow> nested d (heap v) e
        \<longrightarrow> confined {x. nested d (heap v) x} v v')"

definition returning :: "nat \<Rightarrow> 's dequeue_fn \<Rightarrow> bool" where
  "returning d deq = (\<forall>e v. nested d (heap v) e \<longrightarrow> (\<exists>ok v'. deq (Some e) v = Inr (ok, v')))"

text \<open>
  A dequeue function is removing in the state \<open>st\<close> when, called in that state on
  assignments that hold no job twice, it leaves the job out of the assignments.
\<close>

definition removingAt :: "StateId \<Rightarrow> 's dequeue_fn \<Rightarrow> bool" where
  "removingAt st deq =
     (\<forall>e v ok v'. deq (Some e) v = Inr (ok, v') \<longrightarrow> m_state v = st \<longrightarrow>
        distinct (m_assignments v) \<longrightarrow> e \<notin> set (m_assignments v'))"

section \<open>Example worlds\<close>

text \<open>
  The constructor of \<^verbatim>\<open>WeaverImpl\<close>: no job, no thread, at most
  \<^verbatim>\<open>qMax(4, 2 * QThread::idealThreadCount())\<close> threads, and the state WorkingHard after
  InConstruction. The heap and the policies are the caller's.
\<close>

definition WeaverImpl ::
    "int \<Rightarrow> (JobId \<Rightarrow> Job) \<Rightarrow> (PolicyId \<Rightarrow> JobId \<Rightarrow> 's \<Rightarrow> bool \<times> 's) \<Rightarrow> (PolicyId \<Rightarrow> JobId \<Rightarrow> 's \<Rightarrow> 's)
       \<Rightarrow> (PolicyId \<Rightarrow> JobPointer \<Rightarrow> 's \<Rightarrow> 's) \<Rightarrow> 's \<Rightarrow> 's world" where
  "WeaverImpl idealThreadCount h cr rl fr s =
     \<lparr>m_assignments = [], m_inventory = [], m_inventoryMax = max 4 (2 * idealThreadCount),
      m_active = 0, m_state = WorkingHard, m_createdThreads = 0, heap = h,
      canRun = cr, release = rl, free = fr, policyState = s,
      trace = [State_activated InConstruction, Emit_stateChanged InConstruction,
               State_activated WorkingHard, Emit_stateChanged WorkingHard]\<rparr>"

text \<open>
  A job and a collection as their constructors leave them (a collection after
  \<^verbatim>\<open>addJob\<close> for each of \<open>es\<close>), with a priority and policies of the caller's subclass.
\<close>

definition newJob :: "int \<Rightarrow> PolicyId list \<Rightarrow> Job" where
  "newJob prio ps =
     \<lparr>status = Status_New, priority = prio, queuePolicies = ps, isCollection = False,
      elements = [], api = False, jobCounter = 0, jobsStarted = 0, self = None,
      selfIsExecuting = False\<rparr>"

definition newJobCollection :: "int \<Rightarrow> PolicyId list \<Rightarrow> JobId list \<Rightarrow> Job" where
  "newJobCollection prio ps es =
     \<lparr>status = Status_New, priority = prio, queuePolicies = ps, isCollection = True,
      elements = es, api = False, jobCounter = 0, jobsStarted = 0, self = None,
      selfIsExecuting = False\<rparr>"

text \<open>
  A policy of a caller, for the examples: it admits while fewer than \<open>cap\<close> admissions
  are outstanding, and the policy state counts them.
\<close>

definition cap_canRun :: "nat \<Rightarrow> PolicyId \<Rightarrow> JobId \<Rightarrow> nat \<Rightarrow> bool \<times> nat" where
  "cap_canRun cap p job s = (if s < cap then (True, Suc s) else (False, s))"

definition cap_release :: "PolicyId \<Rightarrow> JobId \<Rightarrow> nat \<Rightarrow> nat" where
  "cap_release p job s = s - 1"

definition cap_free :: "PolicyId \<Rightarrow> JobPointer \<Rightarrow> nat \<Rightarrow> nat" where
  "cap_free p job s = s - 1"

text \<open>
  Two jobs queued into a fresh weaver. Job 0 names the policy 0 twice, so with the cap 1
  its second request is refused; job 1 has no policy.
\<close>

definition twoJobs :: "nat world" where
  "twoJobs =
     enqueue_p [Some 0, Some 1]
       (WeaverImpl 1 ((\<lambda>j. newJob 0 [])(0 := newJob 0 [0, 0]))
          (cap_canRun 1) cap_release cap_free 0)"

text \<open>
  Four jobs of a fresh weaver: job 0 has the priority 1, job 1 the priority 5, every
  other job the priority 3.
\<close>

definition fourJobs :: "nat world" where
  "fourJobs =
     WeaverImpl 1 ((\<lambda>j. newJob 3 [])(0 := newJob 1 [], 1 := newJob 5 []))
       (cap_canRun 1) cap_release cap_free 0"

text \<open>
  A job and a collection of which it is an element, both queued: job 0, then the
  collection 1, which names the policy 0.
\<close>

definition queuedCollection :: "nat world" where
  "queuedCollection =
     enqueue_p [Some 0, Some 1]
       (WeaverImpl 1 ((\<lambda>j. newJob 0 [])(1 := newJobCollection 0 [0] [0]))
          (cap_canRun 1) cap_release cap_free 0)"

text \<open>
  A collection of the elements 0 and 2, naming the policy 0, queued alone into a fresh
  weaver and not yet handed to a thread.
\<close>

definition collectionQueued :: "nat world" where
  "collectionQueued =
     enqueue_p [Some 1]
       (WeaverImpl 1 ((\<lambda>j. newJob 0 [])(1 := newJobCollection 0 [0] [0, 2]))
          (cap_canRun 1) cap_release cap_free 0)"

text \<open>
  A collection of the elements 0 and 2, naming the policy 0, queued alone into a fresh
  weaver, handed to the thread 0 and entered through \<^verbatim>\<open>execute\<close>; and the world after
  its own \<^verbatim>\<open>elementFinished\<close>, which has queued the elements.
\<close>

definition runningCollection :: "nat world" where
  "runningCollection =
     JobCollection_execute_begin 1 (Some 1)
       (snd (takeFirstAvailableJobOrSuspendOrWait 0 False False False
          (enqueue_p [Some 1]
             (WeaverImpl 1 ((\<lambda>j. newJob 0 [])(1 := newJobCollection 0 [0] [0, 2]))
                (cap_canRun 1) cap_release cap_free 0))))"

definition elementsQueued :: "nat world" where
  "elementsQueued = projr (elementFinished 1 (Some 1) 0 runningCollection)"

section \<open>Theorems\<close>

subsection \<open>Fields after the small steps\<close>

lemma adjustActiveThreadCount_fields [simp]:
  "m_assignments (adjustActiveThreadCount d w) = m_assignments w"
  "m_state (adjustActiveThreadCount d w) = m_state w"
  "m_active (adjustActiveThreadCount d w) = m_active w + d"
  "m_inventory (adjustActiveThreadCount d w) = m_inventory w"
  "m_inventoryMax (adjustActiveThreadCount d w) = m_inventoryMax w"
  "heap (adjustActiveThreadCount d w) = heap w"
  by (simp_all add: adjustActiveThreadCount_def Let_def)

lemma decActiveThreadCount_fields [simp]:
  "m_assignments (decActiveThreadCount w) = m_assignments w"
  "m_state (decActiveThreadCount w) = m_state w"
  "m_active (decActiveThreadCount w) = m_active w - 1"
  "m_inventory (decActiveThreadCount w) = m_inventory w"
  "m_inventoryMax (decActiveThreadCount w) = m_inventoryMax w"
  "heap (decActiveThreadCount w) = heap w"
  by (simp_all add: decActiveThreadCount_def)

lemma incActiveThreadCount_fields [simp]:
  "m_assignments (incActiveThreadCount w) = m_assignments w"
  "m_state (incActiveThreadCount w) = m_state w"
  "m_active (incActiveThreadCount w) = m_active w + 1"
  "m_inventory (incActiveThreadCount w) = m_inventory w"
  "m_inventoryMax (incActiveThreadCount w) = m_inventoryMax w"
  "heap (incActiveThreadCount w) = heap w"
  by (simp_all add: incActiveThreadCount_def)

lemma setState_p_fields [simp]:
  "m_assignments (setState_p sid w) = m_assignments w"
  "m_state (setState_p sid w) = sid"
  "m_active (setState_p sid w) = m_active w"
  "m_inventory (setState_p sid w) = m_inventory w"
  "m_inventoryMax (setState_p sid w) = m_inventoryMax w"
  "heap (setState_p sid w) = heap w"
  by (simp_all add: setState_p_def Let_def)

lemma blockThread_fields [simp]:
  "m_assignments (blockThreadUntilJobsAreBeingAssigned_locked th w) = m_assignments w"
  "m_state (blockThreadUntilJobsAreBeingAssigned_locked th w) = m_state w"
  "m_active (blockThreadUntilJobsAreBeingAssigned_locked th w) = m_active w"
  "m_inventory (blockThreadUntilJobsAreBeingAssigned_locked th w) = m_inventory w"
  "m_inventoryMax (blockThreadUntilJobsAreBeingAssigned_locked th w) = m_inventoryMax w"
  "heap (blockThreadUntilJobsAreBeingAssigned_locked th w) = heap w"
  "trace (blockThreadUntilJobsAreBeingAssigned_locked th w)
     = trace w @ [Emit_threadSuspended th, JobAvailable_wait th]"
  by (simp_all add: blockThreadUntilJobsAreBeingAssigned_locked_def)

declare findFirstAvailable.simps [simp del]

lemma refusedAll_assignments:
  "refusedAll js w = Some w' \<Longrightarrow> m_assignments w' = m_assignments w \<and> m_active w' = m_active w \<and> m_state w' = m_state w"
proof (induction js arbitrary: w)
  case Nil
  then show ?case by simp
next
  case (Cons j js)
  obtain ok w1 where c: "canBeExecuted j w = (ok, w1)" by (cases "canBeExecuted j w")
  with Cons.prems have r: "refusedAll js w1 = Some w'" by (auto split: if_splits)
  have "policyFrame w w1" using policyFrame_canBeExecuted [of w j] c by simp
  then show ?case using Cons.IH [OF r] by (simp add: policyFrame_fields)
qed

lemma refusedAll_snoc:
  "refusedAll js w = Some w1 \<Longrightarrow> canBeExecuted j w1 = (False, w2) \<Longrightarrow> refusedAll (js @ [j]) w = Some w2"
  by (induction js arbitrary: w) (auto split: prod.splits if_splits)

lemma findFirstAvailable_spec:
  assumes "refusedAll (take i (m_assignments w0)) w0 = Some w"
    and "findFirstAvailable i w = (r, w')"
  shows "case r of
           Some j \<Rightarrow> \<exists>k wk wk'. k < length (m_assignments w0) \<and> j = m_assignments w0 ! k \<and>
                       refusedAll (take k (m_assignments w0)) w0 = Some wk \<and>
                       canBeExecuted j wk = (True, wk') \<and>
                       w' = wk'\<lparr>m_assignments := removeAt k (m_assignments w0)\<rparr>
         | None \<Rightarrow> refusedAll (m_assignments w0) w0 = Some w'"
  using assms
proof (induction i w rule: findFirstAvailable.induct)
  case (1 index w)
  have a: "m_assignments w = m_assignments w0"
    using refusedAll_assignments [OF "1.prems"(1)] by simp
  show ?case
  proof (cases "index < length (m_assignments w)")
    case False
    with "1.prems"(2) have "r = None" "w' = w"
      by (simp_all add: findFirstAvailable.simps [of index w])
    with False a "1.prems"(1) show ?thesis by simp
  next
    case True
    let ?c = "m_assignments w ! index"
    obtain ok w1 where c: "canBeExecuted ?c w = (ok, w1)" by (cases "canBeExecuted ?c w")
    have a1: "m_assignments w1 = m_assignments w" using canBeExecuted_assignments [OF c] .
    show ?thesis
    proof (cases ok)
      case True
      with \<open>index < length (m_assignments w)\<close> c "1.prems"(2)
      have "r = Some ?c" "w' = w1\<lparr>m_assignments := removeAt index (m_assignments w1)\<rparr>"
        by (simp_all add: findFirstAvailable.simps [of index w] Let_def)
      with True c a a1 \<open>index < length (m_assignments w)\<close> "1.prems"(1) show ?thesis
        by auto
    next
      case False
      with \<open>index < length (m_assignments w)\<close> c "1.prems"(2)
      have f: "findFirstAvailable (Suc index) w1 = (r, w')"
        by (simp add: findFirstAvailable.simps [of index w] Let_def)
      have "refusedAll (take index (m_assignments w0) @ [?c]) w0 = Some w1"
        using refusedAll_snoc [OF "1.prems"(1)] c False by simp
      then have p: "refusedAll (take (Suc index) (m_assignments w0)) w0 = Some w1"
        using \<open>index < length (m_assignments w)\<close> a by (simp add: take_Suc_conv_app_nth)
      show ?thesis
        using "1.IH" [OF \<open>index < length (m_assignments w)\<close> refl c [symmetric] False p f] .
    qed
  qed
qed


lemmas eval_defs =
  WeaverImpl_def newJob_def newJobCollection_def cap_canRun_def cap_release_def cap_free_def
  enqueue_p_def enqueueJob_def adjustInventory_def aboutToBeQueued_def insertAt_def
  setStatus_def reschedule_def emit_def updJob_def Let_def
  takeFirstAvailableJobOrSuspendOrWait_def findFirstAvailable.simps canBeExecuted_def
  policy_canRun_def policy_release_def policy_free_def removeAt_def
  incActiveThreadCount_def decActiveThreadCount_def adjustActiveThreadCount_def
  blockThreadUntilJobsAreBeingAssigned_locked_def setState_p_def

lemma twoJobs_fields:
  "m_assignments twoJobs = [0, 1]" "m_state twoJobs = WorkingHard" "m_active twoJobs = 0"
  "length (m_inventory twoJobs) = 2"
  by (simp_all add: twoJobs_def eval_defs)




subsection \<open>Idleness\<close>

text \<open>
  C9. \<^verbatim>\<open>isIdle_p\<close> answers true exactly when the assignments list is empty and the
  active count is zero; that is, exactly when \<^verbatim>\<open>queueLength_p\<close> is 0 and the active
  count is zero.
\<close>

theorem isIdle_p_iff:
  "(isIdle_p w \<longleftrightarrow> m_assignments w = [] \<and> m_active w = 0) \<and>
   (isIdle_p w \<longleftrightarrow> queueLength_p w = 0 \<and> activeThreadCount w = 0)"
  by (simp add: isIdle_p_def isEmpty_p_def queueLength_p_def activeThreadCount_def)

subsection \<open>Admission by the queue policies\<close>

lemma acquire_trace_admit:
  "acquire ps job acq w = (True, acq', w') \<Longrightarrow>
     acq' = acq @ ps \<and> trace w' = trace w @ map (\<lambda>p. PolicyCanRun p job True) ps"
proof (induction ps arbitrary: acq w)
  case Nil
  then show ?case by simp
next
  case (Cons p ps)
  obtain ok w1 where c: "policy_canRun p job w = (ok, w1)" by (cases "policy_canRun p job w")
  with Cons.prems have ok: ok and r: "acquire ps job (acq @ [p]) w1 = (True, acq', w')"
    by (auto split: if_splits bool.splits)
  have t: "trace w1 = trace w @ [PolicyCanRun p job True]"
    using c ok by (auto simp: policy_canRun_def split: prod.splits)
  show ?case using Cons.IH [OF r] t by simp
qed

lemma acquire_trace_refuse:
  "acquire ps job acq w = (False, acq', w') \<Longrightarrow>
     \<exists>k < length ps. acq' = acq @ take k ps \<and>
        trace w' = trace w @ map (\<lambda>p. PolicyCanRun p job True) (take k ps)
                     @ [PolicyCanRun (ps ! k) job False]"
proof (induction ps arbitrary: acq w)
  case Nil
  then show ?case by simp
next
  case (Cons p ps)
  obtain ok w1 where c: "policy_canRun p job w = (ok, w1)" by (cases "policy_canRun p job w")
  have t: "trace w1 = trace w @ [PolicyCanRun p job ok]"
    using c by (auto simp: policy_canRun_def split: prod.splits)
  show ?case
  proof (cases ok)
    case False
    with Cons.prems c have "acq' = acq" "w' = w1" by auto
    with t False show ?thesis by (intro exI [of _ 0]) simp
  next
    case True
    with Cons.prems c have r: "acquire ps job (acq @ [p]) w1 = (False, acq', w')" by simp
    from Cons.IH [OF r] obtain k where k: "k < length ps" "acq' = (acq @ [p]) @ take k ps"
      "trace w' = trace w1 @ map (\<lambda>p. PolicyCanRun p job True) (take k ps)
                     @ [PolicyCanRun (ps ! k) job False]" by blast
    with t True show ?thesis by (intro exI [of _ "Suc k"]) simp
  qed
qed

lemma releaseAll_trace:
  "trace (releaseAll ps job w) = trace w @ map (\<lambda>p. PolicyRelease p job) ps"
  by (induction ps arbitrary: w) (simp_all add: policy_release_def)

text \<open>
  C3. \<^verbatim>\<open>canBeExecuted(job)\<close> asks the job's policies in the order of the list. If it
  answers true, the calls it made are exactly one admitted \<^verbatim>\<open>canRun\<close> for every policy
  of the list (none for an empty list) and no \<^verbatim>\<open>release\<close>. If it answers false, some
  policy at a position \<open>k\<close> refused: the calls are the admitted \<^verbatim>\<open>canRun\<close> of the \<open>k\<close>
  policies before it, its refused \<^verbatim>\<open>canRun\<close>, and then \<^verbatim>\<open>release\<close> on exactly those \<open>k\<close>
  policies; no policy after position \<open>k\<close> is asked.
\<close>

theorem canBeExecuted_policies:
  assumes "canBeExecuted job w = (ok, w')"
  shows "if ok then
           trace w' = trace w @ map (\<lambda>p. PolicyCanRun p job True) (queuePolicies (heap w job))
         else
           (\<exists>k < length (queuePolicies (heap w job)).
              trace w' = trace w
                @ map (\<lambda>p. PolicyCanRun p job True) (take k (queuePolicies (heap w job)))
                @ [PolicyCanRun (queuePolicies (heap w job) ! k) job False]
                @ map (\<lambda>p. PolicyRelease p job) (take k (queuePolicies (heap w job))))"
proof (cases "queuePolicies (heap w job) = []")
  case True
  with assms show ?thesis by (simp add: canBeExecuted_def)
next
  case False
  obtain s acq w1 where a: "acquire (queuePolicies (heap w job)) job [] w = (s, acq, w1)"
    by (cases "acquire (queuePolicies (heap w job)) job [] w") auto
  show ?thesis
  proof (cases s)
    case True
    with assms a False have "ok" "w' = w1" by (auto simp: canBeExecuted_def)
    with acquire_trace_admit [of _ job "[]" w acq w1] a True show ?thesis by simp
  next
    case f: False
    with assms a False have r: "\<not> ok" "w' = releaseAll acq job w1"
      by (auto simp: canBeExecuted_def)
    from acquire_trace_refuse [of _ job "[]" w acq w1] a f obtain k where
      k: "k < length (queuePolicies (heap w job))" "acq = take k (queuePolicies (heap w job))"
      "trace w1 = trace w @ map (\<lambda>p. PolicyCanRun p job True) (take k (queuePolicies (heap w job)))
                     @ [PolicyCanRun (queuePolicies (heap w job) ! k) job False]" by auto
    show ?thesis using r k by (auto simp: releaseAll_trace)
  qed
qed

theorem canBeExecuted_policies_witness:
  "canBeExecuted 0 twoJobs = (False, snd (canBeExecuted 0 twoJobs)) \<and>
   trace (snd (canBeExecuted 0 twoJobs))
     = trace twoJobs @ [PolicyCanRun 0 0 True, PolicyCanRun 0 0 False, PolicyRelease 0 0]"
proof -
  have h: "canBeExecuted 0 twoJobs = (False, snd (canBeExecuted 0 twoJobs))"
    by (simp add: prod_eq_iff twoJobs_def eval_defs)
  have t: "trace (snd (canBeExecuted 0 twoJobs))
             = trace twoJobs @ [PolicyCanRun 0 0 True, PolicyCanRun 0 0 False, PolicyRelease 0 0]"
    by (simp add: twoJobs_def eval_defs)
  have "\<exists>k < length (queuePolicies (heap twoJobs 0)).
          trace (snd (canBeExecuted 0 twoJobs)) = trace twoJobs
            @ map (\<lambda>p. PolicyCanRun p 0 True) (take k (queuePolicies (heap twoJobs 0)))
            @ [PolicyCanRun (queuePolicies (heap twoJobs 0) ! k) 0 False]
            @ map (\<lambda>p. PolicyRelease p 0) (take k (queuePolicies (heap twoJobs 0)))"
    using canBeExecuted_policies [OF h] by simp
  from this h t show ?thesis by blast
qed

subsection \<open>Worker assignment\<close>

text \<open>
  C1, as the code has it. After the decrement for a thread that was busy:
  with \<^verbatim>\<open>suspendIfInactive\<close> set, the active count zero and the state Suspending, the
  state becomes Suspended and no job is returned; otherwise, when the state is not
  WorkingHard or \<^verbatim>\<open>justReturning\<close> is set, no job is returned and nothing else changes;
  otherwise the assignments are walked in order, and either the job at the first position
  \<open>k\<close> whose \<^verbatim>\<open>canBeExecuted\<close> admits it (every earlier candidate having been refused) is
  removed from the assignments, the active count is incremented and the job is
  returned, or every candidate was refused, the caller waits for \<^verbatim>\<open>jobAvailable\<close> and no
  job is returned.
\<close>

theorem takeFirstAvailableJobOrSuspendOrWait_cases:
  assumes "takeFirstAvailableJobOrSuspendOrWait th threadWasBusy suspendIfInactive justReturning w
             = (next, w')"
  shows "let w1 = (if threadWasBusy then decActiveThreadCount w else w); a = m_assignments w
         in m_active w1 = (if threadWasBusy then m_active w - 1 else m_active w) \<and>
            (if suspendIfInactive \<and> m_active w1 = 0 \<and> m_state w = Suspending then
               next = None \<and> w' = setState_p Suspended w1 \<and>
               m_state w' = Suspended \<and> m_assignments w' = a
             else if m_state w \<noteq> WorkingHard \<or> justReturning then
               next = None \<and> w' = w1 \<and> m_assignments w' = a
             else
               (case next of
                  Some j \<Rightarrow>
                    (\<exists>k wk wk'. k < length a \<and> j = a ! k \<and>
                       refusedAll (take k a) w1 = Some wk \<and>
                       canBeExecuted j wk = (True, wk') \<and>
                       w' = incActiveThreadCount (wk'\<lparr>m_assignments := removeAt k a\<rparr>) \<and>
                       m_assignments w' = removeAt k a \<and>
                       m_active w' = m_active w1 + 1)
                | None \<Rightarrow>
                    (\<exists>wn. refusedAll a w1 = Some wn \<and>
                       w' = blockThreadUntilJobsAreBeingAssigned_locked th wn \<and>
                       trace w' = trace wn @ [Emit_threadSuspended th, JobAvailable_wait th] \<and>
                       m_assignments w' = a \<and> m_active w' = m_active w1)))"
proof -
  define w1 where "w1 = (if threadWasBusy then decActiveThreadCount w else w)"
  have s1: "m_state w1 = m_state w" and a1: "m_assignments w1 = m_assignments w"
    and c1: "m_active w1 = (if threadWasBusy then m_active w - 1 else m_active w)"
    by (simp_all add: w1_def)
  note r = assms [unfolded takeFirstAvailableJobOrSuspendOrWait_def, folded w1_def]
  consider (suspend) "suspendIfInactive \<and> m_active w1 = 0 \<and> m_state w = Suspending"
    | (return) "\<not> (suspendIfInactive \<and> m_active w1 = 0 \<and> m_state w = Suspending)"
        "m_state w \<noteq> WorkingHard \<or> justReturning"
    | (walk) "\<not> (suspendIfInactive \<and> m_active w1 = 0 \<and> m_state w = Suspending)"
        "\<not> (m_state w \<noteq> WorkingHard \<or> justReturning)"
    by blast
  then have "m_active w1 = (if threadWasBusy then m_active w - 1 else m_active w) \<and>
            (if suspendIfInactive \<and> m_active w1 = 0 \<and> m_state w = Suspending then
               next = None \<and> w' = setState_p Suspended w1 \<and>
               m_state w' = Suspended \<and> m_assignments w' = m_assignments w
             else if m_state w \<noteq> WorkingHard \<or> justReturning then
               next = None \<and> w' = w1 \<and> m_assignments w' = m_assignments w
             else
               (case next of
                  Some j \<Rightarrow>
                    (\<exists>k wk wk'. k < length (m_assignments w) \<and> j = m_assignments w ! k \<and>
                       refusedAll (take k (m_assignments w)) w1 = Some wk \<and>
                       canBeExecuted j wk = (True, wk') \<and>
                       w' = incActiveThreadCount (wk'\<lparr>m_assignments := removeAt k (m_assignments w)\<rparr>) \<and>
                       m_assignments w' = removeAt k (m_assignments w) \<and>
                       m_active w' = m_active w1 + 1)
                | None \<Rightarrow>
                    (\<exists>wn. refusedAll (m_assignments w) w1 = Some wn \<and>
                       w' = blockThreadUntilJobsAreBeingAssigned_locked th wn \<and>
                       trace w' = trace wn @ [Emit_threadSuspended th, JobAvailable_wait th] \<and>
                       m_assignments w' = m_assignments w \<and> m_active w' = m_active w1)))"
  proof cases
    case suspend
    with r s1 a1 c1 show ?thesis by (auto simp: Let_def)
  next
    case return
    with r s1 a1 c1 show ?thesis by (auto simp: Let_def)
  next
    case walk
    obtain f wf where f: "findFirstAvailable 0 w1 = (f, wf)" by (cases "findFirstAvailable 0 w1")
    have sp: "case f of
           Some j \<Rightarrow> \<exists>k wk wk'. k < length (m_assignments w1) \<and> j = m_assignments w1 ! k \<and>
                       refusedAll (take k (m_assignments w1)) w1 = Some wk \<and>
                       canBeExecuted j wk = (True, wk') \<and>
                       wf = wk'\<lparr>m_assignments := removeAt k (m_assignments w1)\<rparr>
         | None \<Rightarrow> refusedAll (m_assignments w1) w1 = Some wf"
      using findFirstAvailable_spec [of 0 w1 w1 f wf] f by simp
    show ?thesis
    proof (cases f)
      case None
      with r f walk s1 have n: "next = None" "w' = blockThreadUntilJobsAreBeingAssigned_locked th wf"
        by (auto simp: Let_def)
      from sp None have ra: "refusedAll (m_assignments w) w1 = Some wf" by (simp add: a1)
      have "m_assignments wf = m_assignments w" "m_active wf = m_active w1"
        using refusedAll_assignments [OF ra] a1 by simp_all
      with n ra walk c1 show ?thesis by simp
    next
      case (Some j)
      with r f walk s1 have n: "next = Some j" "w' = incActiveThreadCount wf"
        by (auto simp: Let_def)
      from sp Some obtain k wk wk' where
        k: "k < length (m_assignments w)" "j = m_assignments w ! k"
          "refusedAll (take k (m_assignments w)) w1 = Some wk"
          "canBeExecuted j wk = (True, wk')"
          "wf = wk'\<lparr>m_assignments := removeAt k (m_assignments w)\<rparr>"
        by (auto simp: a1)
      have "m_active wk = m_active w1" using refusedAll_assignments [OF k(3)] by simp
      moreover have "m_active wk' = m_active wk"
        using policyFrame_canBeExecuted [of wk j] k(4) by (simp add: policyFrame_fields)
      ultimately have "m_active w' = m_active w1 + 1" using n k(5) by simp
      with n k walk c1 show ?thesis by auto
    qed
  qed
  then show ?thesis unfolding Let_def w1_def [symmetric] .
qed



theorem takeFirstAvailableJobOrSuspendOrWait_cases_witness:
  "takeFirstAvailableJobOrSuspendOrWait 0 False False False twoJobs
     = (Some 1, snd (takeFirstAvailableJobOrSuspendOrWait 0 False False False twoJobs)) \<and>
   m_assignments (snd (takeFirstAvailableJobOrSuspendOrWait 0 False False False twoJobs)) = [0] \<and>
   m_active (snd (takeFirstAvailableJobOrSuspendOrWait 0 False False False twoJobs)) = 1"
proof -
  let ?W = "snd (takeFirstAvailableJobOrSuspendOrWait 0 False False False twoJobs)"
  have h: "takeFirstAvailableJobOrSuspendOrWait 0 False False False twoJobs = (Some 1, ?W)"
    by (simp add: prod_eq_iff twoJobs_def eval_defs)
  have a: "m_assignments ?W = [0]" by (simp add: twoJobs_def eval_defs)
  have c: "m_active ?W = 1" by (simp add: twoJobs_def eval_defs)
  have "\<exists>k wk wk'. k < length (m_assignments twoJobs) \<and> 1 = m_assignments twoJobs ! k \<and>
          refusedAll (take k (m_assignments twoJobs)) twoJobs = Some wk \<and>
          canBeExecuted 1 wk = (True, wk') \<and>
          ?W = incActiveThreadCount (wk'\<lparr>m_assignments := removeAt k (m_assignments twoJobs)\<rparr>) \<and>
          m_assignments ?W = removeAt k (m_assignments twoJobs) \<and>
          m_active ?W = m_active twoJobs + 1"
    using takeFirstAvailableJobOrSuspendOrWait_cases [OF h]
    by (simp add: Let_def twoJobs_fields(2,3))
  from this h a c show ?thesis by blast
qed

text \<open>
  The claim as the spec has it does not hold for every call. With \<^verbatim>\<open>suspendIfInactive\<close>
  false, a call in the state Suspending with no active thread leaves the state as it
  is. With \<^verbatim>\<open>justReturning\<close> true, a call in the state WorkingHard returns no job and
  leaves the world as it is, although job 1 would be admitted.
\<close>

theorem takeFirstAvailableJobOrSuspendOrWait_not_suspended:
  "m_state (setState_p Suspending twoJobs) = Suspending \<and>
   m_active (setState_p Suspending twoJobs) = 0 \<and>
   m_state (snd (takeFirstAvailableJobOrSuspendOrWait 0 False False False
                   (setState_p Suspending twoJobs))) \<noteq> Suspended \<and>
   m_state twoJobs = WorkingHard \<and>
   fst (takeFirstAvailableJobOrSuspendOrWait 0 False False False twoJobs) = Some 1 \<and>
   takeFirstAvailableJobOrSuspendOrWait 0 False True True twoJobs = (None, twoJobs)"
  by (simp add: twoJobs_def eval_defs)

subsection \<open>The order of the assignments\<close>

lemma findPosition_le: "findPosition n a prio p \<le> n"
  by (induction n) auto

lemma findPosition_after:
  "findPosition n a prio p \<le> k \<Longrightarrow> k < n \<Longrightarrow> prio (a ! k) < p"
proof (induction n)
  case 0
  then show ?case by simp
next
  case (Suc n)
  show ?case
  proof (cases "prio (a ! n) < p")
    case True
    with Suc show ?thesis by (cases "k = n") auto
  next
    case False
    with Suc.prems show ?thesis by simp
  qed
qed

lemma findPosition_before:
  "0 < findPosition n a prio p \<Longrightarrow> p \<le> prio (a ! (findPosition n a prio p - 1))"
  by (induction n) (auto split: if_splits)

lemma adjustInventory_fields [simp]:
  "m_assignments (adjustInventory k w) = m_assignments w"
  "heap (adjustInventory k w) = heap w"
  "m_active (adjustInventory k w) = m_active w"
  "m_state (adjustInventory k w) = m_state w"
  "m_inventoryMax (adjustInventory k w) = m_inventoryMax w"
  "canRun (adjustInventory k w) = canRun w"
  "release (adjustInventory k w) = release w"
  "free (adjustInventory k w) = free w"
  "policyState (adjustInventory k w) = policyState w"
proof -
  have c: "\<And>n (v :: 's world). m_assignments (createThreads n v) = m_assignments v \<and>
      heap (createThreads n v) = heap v \<and> m_active (createThreads n v) = m_active v \<and>
      m_state (createThreads n v) = m_state v \<and>
      m_inventoryMax (createThreads n v) = m_inventoryMax v \<and>
      canRun (createThreads n v) = canRun v \<and> release (createThreads n v) = release v \<and>
      free (createThreads n v) = free v \<and> policyState (createThreads n v) = policyState v"
  proof -
    fix n and v :: "'s world"
    show "m_assignments (createThreads n v) = m_assignments v \<and>
      heap (createThreads n v) = heap v \<and> m_active (createThreads n v) = m_active v \<and>
      m_state (createThreads n v) = m_state v \<and>
      m_inventoryMax (createThreads n v) = m_inventoryMax v \<and>
      canRun (createThreads n v) = canRun v \<and> release (createThreads n v) = release v \<and>
      free (createThreads n v) = free v \<and> policyState (createThreads n v) = policyState v"
      by (induction n arbitrary: v) (simp_all add: Let_def)
  qed
  show "m_assignments (adjustInventory k w) = m_assignments w"
  "heap (adjustInventory k w) = heap w"
  "m_active (adjustInventory k w) = m_active w"
  "m_state (adjustInventory k w) = m_state w"
  "m_inventoryMax (adjustInventory k w) = m_inventoryMax w"
  "canRun (adjustInventory k w) = canRun w"
  "release (adjustInventory k w) = release w"
  "free (adjustInventory k w) = free w"
  "policyState (adjustInventory k w) = policyState w"
    by (simp_all add: adjustInventory_def Let_def c)
qed

lemma aboutToBeQueued_fields [simp]:
  "m_assignments (aboutToBeQueued j w) = m_assignments w"
  "m_inventory (aboutToBeQueued j w) = m_inventory w"
  "m_inventoryMax (aboutToBeQueued j w) = m_inventoryMax w"
  "m_active (aboutToBeQueued j w) = m_active w"
  "m_state (aboutToBeQueued j w) = m_state w"
  "m_createdThreads (aboutToBeQueued j w) = m_createdThreads w"
  "priority (heap (aboutToBeQueued j w) x) = priority (heap w x)"
  "queuePolicies (heap (aboutToBeQueued j w) x) = queuePolicies (heap w x)"
  "isCollection (heap (aboutToBeQueued j w) x) = isCollection (heap w x)"
  "elements (heap (aboutToBeQueued j w) x) = elements (heap w x)"
  by (simp_all add: aboutToBeQueued_def)

lemma enqueueJob_assignments:
  "m_assignments (enqueueJob job w) =
     insertAt (findPosition (length (m_assignments w)) (m_assignments w)
                 (\<lambda>x. priority (heap w x)) (priority (heap w job)))
       job (m_assignments w)"
  by (simp add: enqueueJob_def Let_def reschedule_def setStatus_def insertAt_def)

lemma enqueueJob_static:
  "priority (heap (enqueueJob job w) x) = priority (heap w x)"
  "queuePolicies (heap (enqueueJob job w) x) = queuePolicies (heap w x)"
  "isCollection (heap (enqueueJob job w) x) = isCollection (heap w x)"
  "elements (heap (enqueueJob job w) x) = elements (heap w x)"
  by (simp_all add: enqueueJob_def Let_def reschedule_def setStatus_def)

text \<open>Where a job goes: behind everything of its priority or more, before the rest.\<close>

lemma enqueueJob_position:
  assumes "sorted_wrt (byPriority w) (m_assignments w)"
  shows "\<exists>xs ys. m_assignments w = xs @ ys \<and> m_assignments (enqueueJob job w) = xs @ job # ys \<and>
           (\<forall>x \<in> set xs. priority (heap w job) \<le> priority (heap w x)) \<and>
           (\<forall>y \<in> set ys. priority (heap w y) < priority (heap w job))"
proof -
  let ?a = "m_assignments w" and ?prio = "\<lambda>x. priority (heap w x)" and ?p = "priority (heap w job)"
  let ?i = "findPosition (length ?a) ?a ?prio ?p"
  have le: "?i \<le> length ?a" by (rule findPosition_le)
  have after: "\<forall>y \<in> set (drop ?i ?a). ?prio y < ?p"
  proof
    fix y assume "y \<in> set (drop ?i ?a)"
    then obtain k where "k < length (drop ?i ?a)" "y = drop ?i ?a ! k"
      by (auto simp: in_set_conv_nth)
    then have "?i + k < length ?a" "y = ?a ! (?i + k)" using le by auto
    then show "?prio y < ?p" using findPosition_after [of "length ?a" ?a ?prio ?p "?i + k"] by simp
  qed
  have before: "\<forall>x \<in> set (take ?i ?a). ?p \<le> ?prio x"
  proof
    fix x assume "x \<in> set (take ?i ?a)"
    then obtain k where k: "k < ?i" "x = ?a ! k" using le
      by (auto simp: in_set_conv_nth)
    then have pos: "0 < ?i" by simp
    have last: "?p \<le> ?prio (?a ! (?i - 1))" using findPosition_before [OF pos] .
    show "?p \<le> ?prio x"
    proof (cases "k = ?i - 1")
      case True
      with last k show ?thesis by simp
    next
      case False
      with k have "k < ?i - 1" by simp
      moreover have "?i - 1 < length ?a" using le pos by simp
      ultimately have "byPriority w (?a ! k) (?a ! (?i - 1))"
        using assms by (simp add: sorted_wrt_iff_nth_less)
      with last k show ?thesis by (simp add: byPriority_def)
    qed
  qed
  have "?a = take ?i ?a @ drop ?i ?a" by simp
  moreover have "m_assignments (enqueueJob job w) = take ?i ?a @ job # drop ?i ?a"
    by (simp add: enqueueJob_assignments insertAt_def)
  ultimately show ?thesis using before after by blast
qed

lemma byPriority_enqueueJob [simp]: "byPriority (enqueueJob job w) = byPriority w"
  by (simp add: byPriority_def fun_eq_iff enqueueJob_static)

lemma enqueueJob_sorted:
  assumes "sorted_wrt (byPriority w) (m_assignments w)"
  shows "sorted_wrt (byPriority w) (m_assignments (enqueueJob job w))"
proof -
  from enqueueJob_position [OF assms, of job] obtain xs ys where
    e: "m_assignments w = xs @ ys" "m_assignments (enqueueJob job w) = xs @ job # ys"
      "\<forall>x \<in> set xs. priority (heap w job) \<le> priority (heap w x)"
      "\<forall>y \<in> set ys. priority (heap w y) < priority (heap w job)" by blast
  from assms e(1) have "sorted_wrt (byPriority w) xs" "sorted_wrt (byPriority w) ys"
    "\<forall>x \<in> set xs. \<forall>y \<in> set ys. byPriority w x y"
    by (auto simp: sorted_wrt_append)
  with e show ?thesis by (auto simp: sorted_wrt_append byPriority_def) 
qed

lemma enqueueJob_filter:
  assumes "sorted_wrt (byPriority w) (m_assignments w)"
  shows "filter (\<lambda>x. priority (heap w x) = q) (m_assignments (enqueueJob job w))
           = filter (\<lambda>x. priority (heap w x) = q) (m_assignments w)
               @ filter (\<lambda>x. priority (heap w x) = q) [job]"
proof -
  from enqueueJob_position [OF assms, of job] obtain xs ys where
    e: "m_assignments w = xs @ ys" "m_assignments (enqueueJob job w) = xs @ job # ys"
      "\<forall>x \<in> set xs. priority (heap w job) \<le> priority (heap w x)"
      "\<forall>y \<in> set ys. priority (heap w y) < priority (heap w job)" by blast
  show ?thesis
  proof (cases "priority (heap w job) = q")
    case True
    with e(4) have "filter (\<lambda>x. priority (heap w x) = q) ys = []"
      by (auto simp: filter_empty_conv)
    with True e show ?thesis by simp
  next
    case False
    with e show ?thesis by simp
  qed
qed

lemma enqueueEach_sorted_stable:
  assumes "sorted_wrt (byPriority w) (m_assignments w)"
  shows "sorted_wrt (byPriority w) (m_assignments (enqueueEach jobs w)) \<and>
         byPriority (enqueueEach jobs w) = byPriority w \<and>
         (\<forall>x. priority (heap (enqueueEach jobs w) x) = priority (heap w x)) \<and>
         (\<forall>q. filter (\<lambda>x. priority (heap w x) = q) (m_assignments (enqueueEach jobs w))
               = filter (\<lambda>x. priority (heap w x) = q) (m_assignments w)
                   @ filter (\<lambda>x. priority (heap w x) = q) (nonNull jobs))"
  using assms
proof (induction jobs w rule: enqueueEach.induct)
  case (1 w)
  then show ?case by simp
next
  case (2 jobs w)
  then show ?case by simp
next
  case (3 job jobs w)
  have s: "sorted_wrt (byPriority (enqueueJob job w)) (m_assignments (enqueueJob job w))"
    using enqueueJob_sorted [OF "3.prems"] by simp
  note ih = "3.IH" [OF s]
  show ?case
    using ih enqueueJob_filter [OF "3.prems", of _ job]
    by (simp add: enqueueJob_static)
qed

subsection \<open>Invariants of the transition system\<close>

lemma sorted_wrt_subseq: "subseq xs ys \<Longrightarrow> sorted_wrt P ys \<Longrightarrow> sorted_wrt P xs"
proof (induction rule: list_emb.induct)
  case (list_emb_Nil ys)
  then show ?case by simp
next
  case (list_emb_Cons xs ys y)
  then show ?case by simp
next
  case (list_emb_Cons2 x y xs ys)
  then have "set xs \<subseteq> set ys" by (auto dest: list_emb_set)
  with list_emb_Cons2 show ?case by auto
qed

lemma byPriority_static:
  "(\<forall>j. staticJob (heap w j) (heap w' j)) \<Longrightarrow> byPriority w' = byPriority w"
  by (simp add: byPriority_def staticJob_def fun_eq_iff)

lemma sortedQ_static:
  "(\<forall>j. staticJob (heap w j) (heap w' j)) \<Longrightarrow> subseq (m_assignments w') (m_assignments w) \<Longrightarrow>
   sortedQ w \<Longrightarrow> sortedQ w'"
  unfolding sortedQ_def by (simp add: byPriority_static sorted_wrt_subseq)

lemma grows_refl [simp]: "grows w w"
  by (simp add: grows_def staticJob_def)

lemma grows_trans: "grows w w1 \<Longrightarrow> grows w1 w2 \<Longrightarrow> grows w w2"
  unfolding grows_def staticJob_def
  by (auto intro: prefix_order.trans)

lemma grows_dequeueFrame: "dequeueFrame w w' \<Longrightarrow> grows w w'"
  using sortedQ_static [of w w']
  by (simp add: grows_def dequeueFrame_def threadsOK_def)

lemma createThreads_inventory:
  "m_inventory (createThreads k w) = m_inventory w @ [m_createdThreads w ..< m_createdThreads w + k] \<and>
   m_createdThreads (createThreads k w) = m_createdThreads w + k"
proof (induction k arbitrary: w)
  case 0
  then show ?case by simp
next
  case (Suc k)
  show ?case by (simp add: Suc Let_def upt_rec [of "m_createdThreads w"])
qed

lemma adjustInventory_inventory:
  "\<exists>k. m_inventory (adjustInventory n w) = m_inventory w @ [m_createdThreads w ..< m_createdThreads w + k] \<and>
       m_createdThreads (adjustInventory n w) = m_createdThreads w + k \<and>
       int (length (m_inventory w) + k) \<le> max (int (length (m_inventory w))) (m_inventoryMax w)"
proof (cases "m_inventoryMax w - int (length (m_inventory w)) > 0")
  case False
  then show ?thesis by (intro exI [of _ 0]) (simp add: adjustInventory_def)
next
  case True
  let ?k = "nat (min (m_inventoryMax w - int (length (m_inventory w))) n)"
  show ?thesis using True createThreads_inventory [of ?k w]
    by (intro exI [of _ ?k]) (auto simp: adjustInventory_def Let_def)
qed

lemma grows_adjustInventory: "grows w (adjustInventory n w)"
proof -
  from adjustInventory_inventory [of n w] obtain k where
    k: "m_inventory (adjustInventory n w) = m_inventory w @ [m_createdThreads w ..< m_createdThreads w + k]"
       "m_createdThreads (adjustInventory n w) = m_createdThreads w + k"
       "int (length (m_inventory w) + k) \<le> max (int (length (m_inventory w))) (m_inventoryMax w)"
    by blast
  have "threadsOK w \<longrightarrow> threadsOK (adjustInventory n w)"
    using k(1,2) by (auto simp: threadsOK_def)
  then show ?thesis using k sortedQ_static [of w "adjustInventory n w"]
    by (simp add: grows_def staticJob_def)
qed

lemma grows_enqueueJob: "grows w (enqueueJob job w)"
proof -
  from adjustInventory_inventory [of 1 w] obtain k where
    k: "m_inventory (adjustInventory 1 w) = m_inventory w @ [m_createdThreads w ..< m_createdThreads w + k]"
       "m_createdThreads (adjustInventory 1 w) = m_createdThreads w + k"
       "int (length (m_inventory w) + k) \<le> max (int (length (m_inventory w))) (m_inventoryMax w)"
    by blast
  have i: "m_inventory (enqueueJob job w) = m_inventory (adjustInventory 1 w)"
    and c: "m_createdThreads (enqueueJob job w) = m_createdThreads (adjustInventory 1 w)"
    and a: "m_active (enqueueJob job w) = m_active w"
    and m: "m_inventoryMax (enqueueJob job w) = m_inventoryMax w"
    by (simp_all add: enqueueJob_def Let_def reschedule_def setStatus_def)
  have t: "threadsOK w \<longrightarrow> threadsOK (enqueueJob job w)"
    using k(1,2) i c by (auto simp: threadsOK_def)
  have s: "sortedQ w \<longrightarrow> sortedQ (enqueueJob job w)"
    using enqueueJob_sorted [of w job] by (simp add: sortedQ_def)
  show ?thesis
    using k i a m t s by (simp add: grows_def staticJob_def enqueueJob_static)
qed

lemma grows_enqueueEach: "grows w (enqueueEach jobs w)"
  by (induction jobs w rule: enqueueEach.induct) (auto intro: grows_trans grows_enqueueJob)

lemma grows_enqueue_p: "grows w (enqueue_p jobs w)"
  by (simp add: enqueue_p_def grows_enqueueEach)

lemma grows_enqueue: "grows w (enqueue jobs w)"
  by (simp add: enqueue_def grows_enqueue_p)

declare dequeueAll_loop.simps [simp del]

lemma dequeueFrame_dequeueAll_loop:
  "dequeueAll_loop n index w = Inr w' \<Longrightarrow> dequeueFrame w w'"
proof (induction n index w rule: dequeueAll_loop.induct)
  case (1 n index w)
  show ?case
  proof (cases "index < length (m_assignments w)")
    case False
    with "1.prems" show ?thesis by (simp add: dequeueAll_loop.simps [of n index w])
  next
    case True
    with "1.prems" obtain w1 where
      c: "aboutToBeDequeued n (m_assignments w ! index) w = Inr w1" and
      l: "dequeueAll_loop n (Suc index) w1 = Inr w'"
      by (auto simp: dequeueAll_loop.simps [of n index w] split: sum.splits)
    from dequeueFrame_aboutToBeDequeued [OF c] "1.IH" [OF True c l]
    show ?thesis by (rule dequeueFrame_trans)
  qed
qed

lemma dequeueFrame_dequeue_p_all: "dequeue_p_all n w = Inr w' \<Longrightarrow> dequeueFrame w w'"
proof -
  assume "dequeue_p_all n w = Inr w'"
  then obtain w1 where l: "dequeueAll_loop n 0 w = Inr w1" and r: "w' = w1\<lparr>m_assignments := []\<rparr>"
    by (auto simp: dequeue_p_all_def split: sum.splits)
  have "dequeueFrame w1 w'" unfolding r by (simp add: dequeueFrame_def staticJob_def)
  with dequeueFrame_dequeueAll_loop [OF l] show ?thesis by (rule dequeueFrame_trans)
qed

lemma framed_dequeue: "framed (dequeue n :: 's dequeue_fn)"
  using framed_dequeue_p [of n, where ?'s = 's]
  by (auto simp: framed_def dequeue_def split: if_splits)

lemma dequeueFrame_dequeueElements:
  "dequeueElements n this locked w = Inr w' \<Longrightarrow> dequeueFrame w w'"
  unfolding dequeueElements_def
  by (rule dequeueFrame_dequeueElements_with [rotated]) (auto simp: framed_dequeue framed_dequeue_p)

text \<open>
  A thread that holds mutexes either waits for itself or does what a thread does that
  is never refused a mutex.
\<close>

lemma loop_holding:
  assumes "\<And>job v. deq1 job v = Inl Deadlock \<or> deq1 job v = deq2 job v"
  shows "dequeueElements_loop deq1 es this w = Inl Deadlock \<or>
         dequeueElements_loop deq1 es this w = dequeueElements_loop deq2 es this w"
proof (induction es arbitrary: w)
  case Nil
  then show ?case by simp
next
  case (Cons e es)
  from assms [of "Some e" w] show ?case
  proof
    assume "deq1 (Some e) w = Inl Deadlock"
    then show ?thesis by (cases "api (heap w this)") simp_all
  next
    assume eq: "deq1 (Some e) w = deq2 (Some e) w"
    show ?thesis
    proof (cases "deq2 (Some e) w")
      case (Inl err)
      with eq show ?thesis by simp
    next
      case (Inr r)
      obtain b w1 where r: "r = (b, w1)" by (cases r)
      from Cons.IH [of w1] eq Inr r show ?thesis by simp
    qed
  qed
qed

lemma dequeueElements_with_holding:
  assumes "\<And>job v. deq1 job v = Inl Deadlock \<or> deq1 job v = deq2 job v"
  shows "dequeueElements_with deq1 this w = Inl Deadlock \<or>
         dequeueElements_with deq1 this w = dequeueElements_with deq2 this w"
  using loop_holding [of deq1 deq2 "elements (heap w this)" this w, OF assms]
  by (auto simp: dequeueElements_with_def)

lemma aboutToBeDequeued_with_holding:
  assumes "\<And>job v. deq1 job v = Inl Deadlock \<or> deq1 job v = deq2 job v"
  shows "aboutToBeDequeued_with deq1 j w = Inl Deadlock \<or>
         aboutToBeDequeued_with deq1 j w = aboutToBeDequeued_with deq2 j w"
  using dequeueElements_with_holding [of deq1 deq2 j w, OF assms]
  by (auto simp: aboutToBeDequeued_with_def)

lemma dequeue_p_holding_cases:
  "dequeue_p_holding n held job w = Inl Deadlock \<or>
   dequeue_p_holding n held job w = dequeue_p n job w"
proof (induction n arbitrary: held job w)
  case 0
  then show ?case by simp
next
  case (Suc n)
  show ?case
  proof (cases job)
    case None
    then show ?thesis by (simp add: Let_def)
  next
    case (Some j)
    have "Job_aboutToBeDequeued (dequeue_p_holding n) held j w = Inl Deadlock \<or>
          Job_aboutToBeDequeued (dequeue_p_holding n) held j w
            = aboutToBeDequeued_with (dequeue_p n) j w"
      using aboutToBeDequeued_with_holding
              [of "dequeue_p_holding n (insert (JobMutex j) held)" "dequeue_p n" j w, OF Suc]
      by (auto simp: Job_aboutToBeDequeued_def QMutexLocker_def)
    then show ?thesis using Some by (auto simp: Let_def)
  qed
qed

lemma dequeue_holding_cases:
  "dequeue_holding n held job w = Inl Deadlock \<or> dequeue_holding n held job w = dequeue n job w"
  using dequeue_p_holding_cases [of n "insert WeaverMutex held" job w]
  by (auto simp: dequeue_holding_def dequeue_def QMutexLocker_def)

lemma framed_dequeue_p_holding: "framed (dequeue_p_holding n held :: 's dequeue_fn)"
  unfolding framed_def
proof (intro allI impI)
  fix job and w :: "'s world" and b w'
  assume "dequeue_p_holding n held job w = Inr (b, w')"
  with dequeue_p_holding_cases [of n held job w] have "dequeue_p n job w = Inr (b, w')" by auto
  with framed_dequeue_p [of n, where ?'s = 's] show "dequeueFrame w w'" by (auto simp: framed_def)
qed

lemma framed_dequeue_holding: "framed (dequeue_holding n held :: 's dequeue_fn)"
  unfolding framed_def
proof (intro allI impI)
  fix job and w :: "'s world" and b w'
  assume "dequeue_holding n held job w = Inr (b, w')"
  with dequeue_holding_cases [of n held job w] have "dequeue n job w = Inr (b, w')" by auto
  with framed_dequeue [of n, where ?'s = 's] show "dequeueFrame w w'" by (auto simp: framed_def)
qed

lemma dequeueFrame_stop: "stop n held this w = Inr w' \<Longrightarrow> dequeueFrame w w'"
proof -
  assume a: "stop n held this w = Inr w'"
  let ?held = "insert (JobMutex this) held"
  show ?thesis
  proof (cases "api (heap w this)")
    case False
    with a show ?thesis by (simp add: stop_def QMutexLocker_def split: if_splits)
  next
    case True
    with a obtain ok w1 where d: "dequeue_holding n ?held (Some this) w = Inr (ok, w1)"
      and r: "if \<not> ok then dequeueElements_holding n ?held this False w1 = Inr w' else w' = w1"
      by (auto simp: stop_def QMutexLocker_def split: sum.splits if_splits)
    have 1: "dequeueFrame w w1"
      using framed_dequeue_holding [of n ?held, where ?'s = 's] d by (auto simp: framed_def)
    show ?thesis
    proof (cases ok)
      case True
      with r 1 show ?thesis by simp
    next
      case False
      with r have "dequeueElements_with (dequeue_holding n ?held) this w1 = Inr w'"
        by (simp add: dequeueElements_holding_def)
      from dequeueFrame_dequeueElements_with [OF framed_dequeue_holding this] 1
      show ?thesis by (rule dequeueFrame_trans [rotated])
    qed
  qed
qed

lemma grows_updJob:
  "staticJob (heap w j) (f (heap w j)) \<Longrightarrow> grows w (updJob j f w)"
  by (rule grows_dequeueFrame) (rule dequeueFrame_updJob)

lemma grows_elementFinished: "elementFinished this job th w = Inr w' \<Longrightarrow> grows w w'"
proof -
  assume a: "elementFinished this job th w = Inr w'"
  define w1 where "w1 = (if selfIsExecuting (heap w this) then
      updJob this (\<lambda>jb. jb\<lparr>selfIsExecuting := False\<rparr>)
        (enqueue (map Some (elements (heap w this)))
           (updJob this (\<lambda>jb. jb\<lparr>jobCounter := int (length (elements (heap w this))) + 1\<rparr>) w))
      else w)"
  define w2 where "w2 = updJob this (\<lambda>jb. jb\<lparr>jobCounter := jobCounter (heap w1 this) - 1\<rparr>) w1"
  have g1: "grows w w1"
    unfolding w1_def
    by (auto intro!: grows_trans [OF grows_updJob grows_trans [OF grows_enqueue grows_updJob]]
             simp: staticJob_def)
  have g2: "grows w1 w2" unfolding w2_def by (simp add: grows_updJob staticJob_def)
  have r: "w' = (if jobCounter (heap w1 this) - 1 = 0 then
                   updJob this (\<lambda>jb. jb\<lparr>self := None\<rparr>)
                     (emit (Executor_defaultEnd this (self (heap (finalCleanup this w2) this)) th)
                        (finalCleanup this w2))
                 else w2)"
    using a unfolding elementFinished_def enqueueElements_def w1_def w2_def
    by (auto simp: Let_def split: if_splits sum.splits)
  have g3: "grows w2 w'"
  proof (cases "jobCounter (heap w1 this) - 1 = 0")
    case False
    with r show ?thesis by simp
  next
    case True
    have "dequeueFrame w2 (finalCleanup this w2)" by (rule dequeueFrame_finalCleanup)
    moreover have "dequeueFrame (finalCleanup this w2)
        (emit (Executor_defaultEnd this (self (heap (finalCleanup this w2) this)) th) (finalCleanup this w2))"
      by (simp add: dequeueFrame_def staticJob_def)
    moreover have "dequeueFrame
        (emit (Executor_defaultEnd this (self (heap (finalCleanup this w2) this)) th) (finalCleanup this w2)) w'"
      using r True by (simp add: dequeueFrame_updJob staticJob_def)
    ultimately show ?thesis by (blast intro: dequeueFrame_trans grows_dequeueFrame)
  qed
  from g1 g2 g3 show ?thesis by (blast intro: grows_trans)
qed

lemma refusedAll_policyFrame: "refusedAll js w = Some w' \<Longrightarrow> policyFrame w w'"
proof (induction js arbitrary: w)
  case Nil
  then show ?case by simp
next
  case (Cons j js)
  obtain ok w1 where c: "canBeExecuted j w = (ok, w1)" by (cases "canBeExecuted j w")
  with Cons.prems have r: "refusedAll js w1 = Some w'" by (auto split: if_splits)
  have "policyFrame w w1" using policyFrame_canBeExecuted [of w j] c by simp
  then show ?case using Cons.IH [OF r] by (rule policyFrame_trans)
qed

lemma small_steps_createdThreads [simp]:
  "m_createdThreads (adjustActiveThreadCount d w) = m_createdThreads w"
  "m_createdThreads (decActiveThreadCount w) = m_createdThreads w"
  "m_createdThreads (incActiveThreadCount w) = m_createdThreads w"
  "m_createdThreads (setState_p sid w) = m_createdThreads w"
  "m_createdThreads (blockThreadUntilJobsAreBeingAssigned_locked th w) = m_createdThreads w"
  by (simp_all add: adjustActiveThreadCount_def decActiveThreadCount_def incActiveThreadCount_def
        setState_p_def blockThreadUntilJobsAreBeingAssigned_locked_def Let_def)

lemma findFirstAvailable_effect:
  assumes "findFirstAvailable 0 w = (r, w')"
  shows "m_inventory w' = m_inventory w \<and> m_inventoryMax w' = m_inventoryMax w \<and>
         m_createdThreads w' = m_createdThreads w \<and> heap w' = heap w \<and>
         m_active w' = m_active w \<and> subseq (m_assignments w') (m_assignments w)"
proof -
  have sp: "case r of
           Some j \<Rightarrow> \<exists>k wk wk'. k < length (m_assignments w) \<and> j = m_assignments w ! k \<and>
                       refusedAll (take k (m_assignments w)) w = Some wk \<and>
                       canBeExecuted j wk = (True, wk') \<and>
                       w' = wk'\<lparr>m_assignments := removeAt k (m_assignments w)\<rparr>
         | None \<Rightarrow> refusedAll (m_assignments w) w = Some w'"
    using findFirstAvailable_spec [of 0 w w r w'] assms by simp
  show ?thesis
  proof (cases r)
    case None
    with sp have "policyFrame w w'" by (simp add: refusedAll_policyFrame)
    then show ?thesis by (simp add: policyFrame_fields)
  next
    case (Some j)
    with sp obtain k wk wk' where
      k: "refusedAll (take k (m_assignments w)) w = Some wk" "canBeExecuted j wk = (True, wk')"
         "w' = wk'\<lparr>m_assignments := removeAt k (m_assignments w)\<rparr>" by auto
    have "policyFrame w wk" using k(1) by (rule refusedAll_policyFrame)
    moreover have "policyFrame wk wk'" using policyFrame_canBeExecuted [of wk j] k(2) by simp
    ultimately have "policyFrame w wk'" by (rule policyFrame_trans)
    then show ?thesis using k(3) by (simp add: policyFrame_fields subseq_removeAt)
  qed
qed

lemma takeFirstAvailableJobOrSuspendOrWait_effect:
  assumes "takeFirstAvailableJobOrSuspendOrWait th busy sus jr w = (r, w')"
  shows "m_inventory w' = m_inventory w \<and> m_inventoryMax w' = m_inventoryMax w \<and>
         m_createdThreads w' = m_createdThreads w \<and> heap w' = heap w \<and>
         subseq (m_assignments w') (m_assignments w) \<and>
         m_active w' = m_active w - (if busy then 1 else 0) + (if r = None then 0 else 1)"
proof -
  define w1 where "w1 = (if busy then decActiveThreadCount w else w)"
  have f1: "m_inventory w1 = m_inventory w" "m_inventoryMax w1 = m_inventoryMax w"
    "m_createdThreads w1 = m_createdThreads w" "heap w1 = heap w"
    "m_assignments w1 = m_assignments w" "m_active w1 = m_active w - (if busy then 1 else 0)"
    by (simp_all add: w1_def)
  note r = assms [unfolded takeFirstAvailableJobOrSuspendOrWait_def, folded w1_def]
  show ?thesis
  proof (cases "(sus \<and> m_active w1 = 0 \<and> m_state w1 = Suspending) \<or> m_state w1 \<noteq> WorkingHard \<or> jr")
    case True
    with r f1 show ?thesis by (auto simp: Let_def split: if_splits)
  next
    case False
    obtain f wf where f: "findFirstAvailable 0 w1 = (f, wf)" by (cases "findFirstAvailable 0 w1")
    note e = findFirstAvailable_effect [OF f]
    from False r f have "(r = None \<and> f = None \<and> w' = blockThreadUntilJobsAreBeingAssigned_locked th wf)
        \<or> (r \<noteq> None \<and> f = r \<and> w' = incActiveThreadCount wf)"
      by (auto simp: Let_def split: option.splits)
    then show ?thesis using e f1 by auto
  qed
qed

lemma inv_grows:
  "inv (w, B) \<Longrightarrow> grows w w' \<Longrightarrow> inv (w', B)"
  unfolding inv_def grows_def by (auto dest: set_mono_prefix)

lemma inv_step:
  assumes "inv s" and "step n x s = Some s'"
  shows "inv s'"
proof -
  obtain w B where s: "s = (w, B)" by (cases s)
  show ?thesis
  proof (cases x)
    case (Enqueue jobs)
    with assms s show ?thesis by (auto intro: inv_grows grows_enqueue_p)
  next
    case (Dequeue job)
    with assms s show ?thesis
      using framed_dequeue_p [of n, where ?'s = 'a]
      by (auto simp: framed_def split: sum.splits intro!: inv_grows [of w B] grows_dequeueFrame)
  next
    case DequeueAll
    with assms s show ?thesis
      by (auto split: sum.splits intro!: inv_grows [of w B] grows_dequeueFrame dequeueFrame_dequeue_p_all)
  next
    case (SetMaximumNumberOfThreads cap)
    with assms s show ?thesis
      using sortedQ_static [of w "setMaximumNumberOfThreads_p cap w"]
      by (auto simp: inv_def setMaximumNumberOfThreads_p_def threadsOK_def staticJob_def
               split: if_splits)
  next
    case (SetState sid)
    with assms s show ?thesis
      using sortedQ_static [of w "setState_p sid w"]
      by (auto simp: inv_def threadsOK_def staticJob_def)
  next
    case (ApplyForWork th sus jr)
    with assms s obtain r w' where
      t: "th \<in> set (m_inventory w)"
         "takeFirstAvailableJobOrSuspendOrWait th (th \<in> B) sus jr w = (r, w')"
         "s' = (w', if r = None then B - {th} else insert th B)"
      by (auto split: if_splits prod.splits option.splits)
    note e = takeFirstAvailableJobOrSuspendOrWait_effect [OF t(2)]
    from assms(1) s have i: "threadsOK w" "finite B" "B \<subseteq> set (m_inventory w)"
      "m_active w = int (card B)" "sortedQ w" by (simp_all add: inv_def)
    have 1: "threadsOK w'" using i(1) e by (simp add: threadsOK_def)
    have 2: "sortedQ w'" using i(5) e sortedQ_static [of w w'] by (simp add: staticJob_def)
    have 3: "m_active w' = int (card (if r = None then B - {th} else insert th B))"
    proof (cases "th \<in> B")
      case True
      then have "card B > 0" using i(2) by (auto simp: card_gt_0_iff)
      with True e i(2,4) show ?thesis by (auto simp: card_Diff_singleton insert_absorb)
    next
      case False
      with e i(2,4) show ?thesis by auto
    qed
    show ?thesis using 1 2 3 i t e by (auto simp: inv_def)
  next
    case (ElementFinished this job th)
    with assms s show ?thesis
      by (auto split: sum.splits intro!: inv_grows [of w B] grows_elementFinished)
  next
    case (Stop this)
    with assms s show ?thesis
      by (auto split: sum.splits intro!: inv_grows [of w B] grows_dequeueFrame dequeueFrame_stop)
  qed
qed

lemma inv_exec: "inv s \<Longrightarrow> exec n xs s = Some s' \<Longrightarrow> inv s'"
proof (induction xs arbitrary: s)
  case Nil
  then show ?case by simp
next
  case (Cons x xs)
  then show ?case by (auto split: option.splits dest: inv_step)
qed

lemma step_inventory:
  assumes "step n x (w, B) = Some (w', B')"
  shows "prefix (m_inventory w) (m_inventory w') \<and>
         ((\<forall>cap. x \<noteq> SetMaximumNumberOfThreads cap) \<longrightarrow>
            m_inventoryMax w' = m_inventoryMax w \<and>
            int (length (m_inventory w')) \<le> max (int (length (m_inventory w))) (m_inventoryMax w)) \<and>
         (\<forall>cap. x = SetMaximumNumberOfThreads cap \<longrightarrow>
            m_inventoryMax w' = cap \<and> m_inventory w' = m_inventory w)"
proof -
  have g: "grows w w' \<Longrightarrow> prefix (m_inventory w) (m_inventory w') \<and> m_inventoryMax w' = m_inventoryMax w \<and>
            int (length (m_inventory w')) \<le> max (int (length (m_inventory w))) (m_inventoryMax w)"
    by (simp add: grows_def)
  show ?thesis
  proof (cases x)
    case (Enqueue jobs)
    with assms g grows_enqueue_p [of w jobs] show ?thesis by auto
  next
    case (Dequeue job)
    with assms obtain ok where "dequeue_p n job w = Inr (ok, w')" by (auto split: sum.splits)
    then have "dequeueFrame w w'" using framed_dequeue_p [of n, where ?'s = 'a] by (auto simp: framed_def)
    with g Dequeue show ?thesis by (simp add: grows_dequeueFrame)
  next
    case DequeueAll
    with assms have "dequeueFrame w w'" by (auto split: sum.splits intro: dequeueFrame_dequeue_p_all)
    with g DequeueAll show ?thesis by (simp add: grows_dequeueFrame)
  next
    case (SetMaximumNumberOfThreads cap)
    with assms show ?thesis by (auto simp: setMaximumNumberOfThreads_p_def split: if_splits)
  next
    case (SetState sid)
    with assms show ?thesis by auto
  next
    case (ApplyForWork th sus jr)
    with assms obtain r where
      "takeFirstAvailableJobOrSuspendOrWait th (th \<in> B) sus jr w = (r, w')"
      by (auto split: if_splits prod.splits option.splits)
    from takeFirstAvailableJobOrSuspendOrWait_effect [OF this] ApplyForWork show ?thesis by simp
  next
    case (ElementFinished this job th)
    with assms have "grows w w'" by (auto split: sum.splits intro: grows_elementFinished)
    with g ElementFinished show ?thesis by simp
  next
    case (Stop this)
    with assms have "dequeueFrame w w'" by (auto split: sum.splits intro: dequeueFrame_stop)
    with g Stop show ?thesis by (simp add: grows_dequeueFrame)
  qed
qed

lemma exec_prefix:
  "exec n xs s = Some s' \<Longrightarrow> prefix (m_inventory (fst s)) (m_inventory (fst s'))"
proof (induction xs arbitrary: s)
  case Nil
  then show ?case by simp
next
  case (Cons x xs)
  then obtain s1 where s1: "step n x s = Some s1" "exec n xs s1 = Some s'"
    by (auto split: option.splits)
  have "prefix (m_inventory (fst s)) (m_inventory (fst s1))"
    using step_inventory [of n x "fst s" "snd s" "fst s1" "snd s1"] s1(1) by simp
  with Cons.IH [OF s1(2)] show ?case by (blast intro: prefix_order.trans)
qed

lemma exec_cap:
  "capsCoverInventory n xs s \<Longrightarrow> int (length (m_inventory (fst s))) \<le> m_inventoryMax (fst s) \<Longrightarrow>
   exec n xs s = Some s' \<Longrightarrow> int (length (m_inventory (fst s'))) \<le> m_inventoryMax (fst s')"
proof (induction xs arbitrary: s)
  case Nil
  then show ?case by simp
next
  case (Cons x xs)
  from Cons.prems(3) obtain s1 where s1: "step n x s = Some s1" "exec n xs s1 = Some s'"
    by (auto split: option.splits)
  note st = step_inventory [of n x "fst s" "snd s" "fst s1" "snd s1"]
  have c: "capsCoverInventory n xs s1" using Cons.prems(1) s1(1) by simp
  have "int (length (m_inventory (fst s1))) \<le> m_inventoryMax (fst s1)"
  proof (cases "\<exists>cap. x = SetMaximumNumberOfThreads cap")
    case True
    then obtain cap where x: "x = SetMaximumNumberOfThreads cap" by blast
    with Cons.prems(1) have "int (length (m_inventory (fst s))) \<le> cap"
      by (simp add: currentNumberOfThreads_p_def)
    with st s1(1) x show ?thesis by simp
  next
    case False
    with st s1(1) Cons.prems(2) show ?thesis by auto
  qed
  from Cons.IH [OF c this s1(2)] show ?case .
qed

lemma inv_WeaverImpl: "inv (WeaverImpl ideal h cr rl fr p, {})"
  by (simp add: inv_def WeaverImpl_def threadsOK_def sortedQ_def)

lemmas exec_defs = eval_defs currentNumberOfThreads_p_def maximumNumberOfThreads_p_def
  activeThreadCount_def setMaximumNumberOfThreads_p_def

subsection \<open>Stable insertion by priority\<close>

text \<open>
  C2. When the assignments are sorted by priority, descending, then after
  \<^verbatim>\<open>enqueue_p(jobs)\<close> they are sorted again, and for every priority \<open>q\<close> the queued jobs of
  that priority are those queued before, in their order, followed by the non-null jobs
  of \<open>jobs\<close> with that priority, in their order; a single job is inserted behind every
  queued job of its priority or a higher one and before every job of a lower one. Hence
  the assignments are sorted by priority, descending, in every state that the weaver
  reaches from its constructor.
\<close>

theorem enqueue_p_order:
  "(sorted_wrt (byPriority w) (m_assignments w) \<longrightarrow>
      sorted_wrt (byPriority w) (m_assignments (enqueue_p jobs w)) \<and>
      (\<forall>q. filter (\<lambda>x. priority (heap w x) = q) (m_assignments (enqueue_p jobs w))
            = filter (\<lambda>x. priority (heap w x) = q) (m_assignments w)
                @ filter (\<lambda>x. priority (heap w x) = q) (nonNull jobs)) \<and>
      (\<forall>job. \<exists>xs ys. m_assignments w = xs @ ys \<and>
            m_assignments (enqueue_p [Some job] w) = xs @ job # ys \<and>
            (\<forall>x \<in> set xs. priority (heap w job) \<le> priority (heap w x)) \<and>
            (\<forall>y \<in> set ys. priority (heap w y) < priority (heap w job)))) \<and>
   (exec n xs (WeaverImpl ideal h cr rl fr p, {}) = Some (w', B) \<longrightarrow>
      sorted_wrt (byPriority w') (m_assignments w'))"
proof (intro conjI impI)
  assume s: "sorted_wrt (byPriority w) (m_assignments w)"
  have one: "\<And>job. enqueue_p [Some job] w = enqueueJob job w" by (simp add: enqueue_p_def)
  note e = enqueueEach_sorted_stable [OF s, of jobs]
  show "sorted_wrt (byPriority w) (m_assignments (enqueue_p jobs w))"
    using e s by (cases "jobs = []") (simp_all add: enqueue_p_def)
  show "\<forall>q. filter (\<lambda>x. priority (heap w x) = q) (m_assignments (enqueue_p jobs w))
            = filter (\<lambda>x. priority (heap w x) = q) (m_assignments w)
                @ filter (\<lambda>x. priority (heap w x) = q) (nonNull jobs)"
    using e by (cases "jobs = []") (simp_all add: enqueue_p_def)
  show "\<forall>job. \<exists>xs ys. m_assignments w = xs @ ys \<and>
            m_assignments (enqueue_p [Some job] w) = xs @ job # ys \<and>
            (\<forall>x \<in> set xs. priority (heap w job) \<le> priority (heap w x)) \<and>
            (\<forall>y \<in> set ys. priority (heap w y) < priority (heap w job))"
    using enqueueJob_position [OF s] by (simp add: one)
next
  assume e: "exec n xs (WeaverImpl ideal h cr rl fr p, {}) = Some (w', B)"
  from inv_exec [OF inv_WeaverImpl e]
  show "sorted_wrt (byPriority w') (m_assignments w')" by (simp add: inv_def sortedQ_def)
qed

theorem enqueue_p_order_witness:
  "sorted_wrt (byPriority (enqueue_p [Some 0, Some 1, Some 2] fourJobs))
     (m_assignments (enqueue_p [Some 0, Some 1, Some 2] fourJobs)) \<and>
   m_assignments (enqueue_p [Some 0, Some 1, Some 2] fourJobs) = [1, 2, 0] \<and>
   m_assignments (enqueue_p [Some 3] (enqueue_p [Some 0, Some 1, Some 2] fourJobs)) = [1, 2, 3, 0] \<and>
   sorted_wrt (byPriority (enqueue_p [Some 0, Some 1, Some 2] fourJobs))
     (m_assignments (enqueue_p [Some 3] (enqueue_p [Some 0, Some 1, Some 2] fourJobs))) \<and>
   exec 0 [Enqueue [Some 0, Some 1, Some 2], Enqueue [Some 3]] (fourJobs, {})
     = Some (enqueue_p [Some 3] (enqueue_p [Some 0, Some 1, Some 2] fourJobs), {}) \<and>
   sorted_wrt (byPriority (enqueue_p [Some 3] (enqueue_p [Some 0, Some 1, Some 2] fourJobs)))
     (m_assignments (enqueue_p [Some 3] (enqueue_p [Some 0, Some 1, Some 2] fourJobs)))"
proof -
  let ?W = "enqueue_p [Some 0, Some 1, Some 2] fourJobs"
  have a: "m_assignments ?W = [1, 2, 0]" by (simp add: fourJobs_def eval_defs)
  have b: "m_assignments (enqueue_p [Some 3] ?W) = [1, 2, 3, 0]"
    by (simp add: fourJobs_def eval_defs)
  have s: "sorted_wrt (byPriority ?W) (m_assignments ?W)"
    unfolding a by (simp add: byPriority_def fourJobs_def eval_defs)
  have e: "exec 0 [Enqueue [Some 0, Some 1, Some 2], Enqueue [Some 3]]
             (WeaverImpl 1 ((\<lambda>j. newJob 3 [])(0 := newJob 1 [], 1 := newJob 5 []))
                (cap_canRun 1) cap_release cap_free (0 :: nat), {})
           = Some (enqueue_p [Some 3] ?W, {})"
    by (simp add: fourJobs_def)
  note t = enqueue_p_order [of ?W "[Some 3]" 0 "[Enqueue [Some 0, Some 1, Some 2], Enqueue [Some 3]]"
      1 "(\<lambda>j. newJob 3 [])(0 := newJob 1 [], 1 := newJob 5 [])" "cap_canRun 1" cap_release cap_free 0
      "enqueue_p [Some 3] ?W" "{}"]
  from t s have 1: "sorted_wrt (byPriority ?W) (m_assignments (enqueue_p [Some 3] ?W))" by blast
  from t e have 2: "sorted_wrt (byPriority (enqueue_p [Some 3] ?W)) (m_assignments (enqueue_p [Some 3] ?W))"
    by blast
  from e have e': "exec 0 [Enqueue [Some 0, Some 1, Some 2], Enqueue [Some 3]] (fourJobs, {})
     = Some (enqueue_p [Some 3] ?W, {})" by (simp add: fourJobs_def)
  from s a b 1 2 e' show ?thesis by blast
qed

subsection \<open>The inventory and its cap\<close>

text \<open>
  C8, as the code has it. In every state that the weaver reaches from its constructor,
  the active count is at most the number of threads; and the number of threads is at most
  the maximum as long as every call of \<^verbatim>\<open>setMaximumNumberOfThreads\<close> gave a cap that was
  at least the number of threads at that moment. The inventory never shrinks (shutdown
  is not among the steps): \<^verbatim>\<open>adjustInventory\<close> only appends, and never beyond the larger
  of the maximum and the size it found, and \<^verbatim>\<open>setMaximumNumberOfThreads_p\<close> leaves the
  inventory as it is.
\<close>

theorem inventory_bounds:
  "(exec n xs (WeaverImpl ideal h cr rl fr p, {}) = Some (w, B) \<longrightarrow>
      activeThreadCount w \<le> currentNumberOfThreads_p w \<and>
      (capsCoverInventory n xs (WeaverImpl ideal h cr rl fr p, {}) \<longrightarrow>
         currentNumberOfThreads_p w \<le> maximumNumberOfThreads_p w)) \<and>
   (exec n ys (v, A) = Some (v', A') \<longrightarrow> prefix (m_inventory v) (m_inventory v')) \<and>
   currentNumberOfThreads_p (adjustInventory k u)
     \<le> max (currentNumberOfThreads_p u) (maximumNumberOfThreads_p u) \<and>
   prefix (m_inventory u) (m_inventory (adjustInventory k u)) \<and>
   m_inventory (setMaximumNumberOfThreads_p cap u) = m_inventory u"
proof (intro conjI impI)
  assume e: "exec n xs (WeaverImpl ideal h cr rl fr p, {}) = Some (w, B)"
  from inv_exec [OF inv_WeaverImpl e]
  have i: "threadsOK w" "finite B" "B \<subseteq> set (m_inventory w)" "m_active w = int (card B)"
    by (simp_all add: inv_def)
  have "card B \<le> card (set (m_inventory w))" using i(3) by (simp add: card_mono)
  also have "\<dots> = length (m_inventory w)" using i(1) by (simp add: threadsOK_def distinct_card)
  finally show "activeThreadCount w \<le> currentNumberOfThreads_p w"
    using i(4) by (simp add: activeThreadCount_def currentNumberOfThreads_p_def)
  assume c: "capsCoverInventory n xs (WeaverImpl ideal h cr rl fr p, {})"
  have "int (length (m_inventory (fst (WeaverImpl ideal h cr rl fr p, {}))))
          \<le> m_inventoryMax (fst (WeaverImpl ideal h cr rl fr p, {}))"
    by (simp add: WeaverImpl_def)
  from exec_cap [OF c this e]
  show "currentNumberOfThreads_p w \<le> maximumNumberOfThreads_p w"
    by (simp add: currentNumberOfThreads_p_def maximumNumberOfThreads_p_def)
next
  assume "exec n ys (v, A) = Some (v', A')"
  from exec_prefix [OF this] show "prefix (m_inventory v) (m_inventory v')" by simp
next
  from grows_adjustInventory [of u k]
  show "currentNumberOfThreads_p (adjustInventory k u)
          \<le> max (currentNumberOfThreads_p u) (maximumNumberOfThreads_p u)"
    and "prefix (m_inventory u) (m_inventory (adjustInventory k u))"
    by (simp_all add: grows_def currentNumberOfThreads_p_def maximumNumberOfThreads_p_def)
next
  show "m_inventory (setMaximumNumberOfThreads_p cap u) = m_inventory u"
    by (simp add: setMaximumNumberOfThreads_p_def)
qed

theorem inventory_bounds_witness:
  "exec 0 [Enqueue [Some 0, Some 1], SetMaximumNumberOfThreads 2, ApplyForWork 0 False False]
     (WeaverImpl 1 ((\<lambda>j. newJob 0 [])(0 := newJob 0 [0, 0])) (cap_canRun 1) cap_release cap_free (0 :: nat), {})
     = Some (snd (takeFirstAvailableJobOrSuspendOrWait 0 False False False
                    (setMaximumNumberOfThreads_p 2 twoJobs)), {0}) \<and>
   capsCoverInventory 0 [Enqueue [Some 0, Some 1], SetMaximumNumberOfThreads 2, ApplyForWork 0 False False]
     (WeaverImpl 1 ((\<lambda>j. newJob 0 [])(0 := newJob 0 [0, 0])) (cap_canRun 1) cap_release cap_free (0 :: nat), {}) \<and>
   activeThreadCount (snd (takeFirstAvailableJobOrSuspendOrWait 0 False False False
                    (setMaximumNumberOfThreads_p 2 twoJobs))) = 1 \<and>
   currentNumberOfThreads_p (snd (takeFirstAvailableJobOrSuspendOrWait 0 False False False
                    (setMaximumNumberOfThreads_p 2 twoJobs))) = 2 \<and>
   maximumNumberOfThreads_p (snd (takeFirstAvailableJobOrSuspendOrWait 0 False False False
                    (setMaximumNumberOfThreads_p 2 twoJobs))) = 2 \<and>
   activeThreadCount (snd (takeFirstAvailableJobOrSuspendOrWait 0 False False False
                    (setMaximumNumberOfThreads_p 2 twoJobs)))
     \<le> currentNumberOfThreads_p (snd (takeFirstAvailableJobOrSuspendOrWait 0 False False False
                    (setMaximumNumberOfThreads_p 2 twoJobs))) \<and>
   currentNumberOfThreads_p (snd (takeFirstAvailableJobOrSuspendOrWait 0 False False False
                    (setMaximumNumberOfThreads_p 2 twoJobs)))
     \<le> maximumNumberOfThreads_p (snd (takeFirstAvailableJobOrSuspendOrWait 0 False False False
                    (setMaximumNumberOfThreads_p 2 twoJobs)))"
proof -
  let ?init = "WeaverImpl 1 ((\<lambda>j. newJob 0 [])(0 := newJob 0 [0, 0])) (cap_canRun 1) cap_release cap_free (0 :: nat)"
  let ?xs = "[Enqueue [Some 0, Some 1], SetMaximumNumberOfThreads 2, ApplyForWork 0 False False]"
  let ?W = "snd (takeFirstAvailableJobOrSuspendOrWait 0 False False False
                    (setMaximumNumberOfThreads_p 2 twoJobs))"
  have e: "exec 0 ?xs (?init, {}) = Some (?W, {0})"
    by (simp add: twoJobs_def exec_defs)
  have c: "capsCoverInventory 0 ?xs (?init, {})"
    by (simp add: twoJobs_def exec_defs)
  have v: "activeThreadCount ?W = 1" "currentNumberOfThreads_p ?W = 2" "maximumNumberOfThreads_p ?W = 2"
    by (simp_all add: twoJobs_def exec_defs)
  note t = inventory_bounds [of 0 ?xs 1 "(\<lambda>j. newJob 0 [])(0 := newJob 0 [0, 0])" "cap_canRun 1"
      cap_release cap_free 0 ?W "{0}" ?xs ?init "{}" ?W "{0}"]
  from t e c have "activeThreadCount ?W \<le> currentNumberOfThreads_p ?W \<and>
      currentNumberOfThreads_p ?W \<le> maximumNumberOfThreads_p ?W \<and>
      prefix (m_inventory ?init) (m_inventory ?W)" by blast
  with e c v show ?thesis by blast
qed

text \<open>
  The claim as the spec has it fails: \<^verbatim>\<open>setMaximumNumberOfThreads_p\<close> stores the cap
  and removes no thread, so a cap below the size of the inventory leaves more threads
  than the maximum.
\<close>

theorem inventory_exceeds_maximum:
  "exec 0 [Enqueue [Some 0, Some 1], SetMaximumNumberOfThreads 1]
     (WeaverImpl 1 ((\<lambda>j. newJob 0 [])(0 := newJob 0 [0, 0])) (cap_canRun 1) cap_release cap_free (0 :: nat), {})
     = Some (setMaximumNumberOfThreads_p 1 twoJobs, {}) \<and>
   \<not> currentNumberOfThreads_p (setMaximumNumberOfThreads_p 1 twoJobs)
       \<le> maximumNumberOfThreads_p (setMaximumNumberOfThreads_p 1 twoJobs)"
  by (simp add: twoJobs_def exec_defs)

subsection \<open>Dequeueing a job\<close>

lemma nested_Suc: "nested d h j \<Longrightarrow> nested (Suc d) h j"
proof (induction d arbitrary: j)
  case 0
  then show ?case by simp
next
  case (Suc d)
  have "isCollection (h j) \<longrightarrow> (\<forall>e \<in> set (elements (h j)). nested (Suc d) h e)"
  proof (intro impI ballI)
    fix e assume "isCollection (h j)" "e \<in> set (elements (h j))"
    with Suc.prems have "nested d h e" by simp
    then show "nested (Suc d) h e" by (rule Suc.IH)
  qed
  then show ?case by (subst nested.simps(2))
qed

lemma nested_mono: "nested d h j \<Longrightarrow> d \<le> d' \<Longrightarrow> nested d' h j"
  by (induction d' ) (auto simp: le_Suc_eq dest: nested_Suc simp del: nested.simps)

lemma nested_static:
  "(\<forall>j. staticJob (h j) (h' j)) \<Longrightarrow> nested d h' j = nested d h j"
  by (induction d arbitrary: j) (simp_all add: staticJob_def)

lemma nested_dequeueFrame: "dequeueFrame w w' \<Longrightarrow> nested d (heap w') = nested d (heap w)"
  by (rule ext) (simp add: nested_static dequeueFrame_def)

lemma confined_refl [simp]: "confined T w w"
  by (simp add: confined_def)

lemma confined_trans: "confined T w w1 \<Longrightarrow> confined T w1 w2 \<Longrightarrow> confined T w w2"
  by (simp add: confined_def)

lemma confined_mono: "confined T w w' \<Longrightarrow> T \<subseteq> T' \<Longrightarrow> confined T' w w'"
  by (auto simp: confined_def)

lemma confined_updJob: "j \<in> T \<Longrightarrow> confined T w (updJob j f w)"
  by (auto simp: confined_def)

lemma confined_policyFrame: "policyFrame w w' \<Longrightarrow> confined T w w'"
  by (simp add: confined_def policyFrame_fields)

lemma confined_finalCleanup: "j \<in> T \<Longrightarrow> confined T w (finalCleanup j w)"
proof -
  assume j: "j \<in> T"
  let ?w1 = "freeQueuePolicyResources j (self (heap w j)) w"
  have 1: "confined T w ?w1"
    by (simp add: freeQueuePolicyResources_def confined_policyFrame policyFrame_freeAll)
  show ?thesis
    unfolding finalCleanup_def Let_def setStatus_def
    by (intro confined_trans [OF 1] confined_trans [OF confined_updJob [OF j] confined_updJob [OF j]])
qed

lemma indexOf_ge: "- 1 \<le> indexOf xs job"
  by (induction xs) (auto simp: Let_def)

lemma indexOf_absent: "(indexOf xs job = - 1) = (job \<notin> Some ` set xs)"
proof (induction xs)
  case Nil
  then show ?case by simp
next
  case (Cons x xs)
  show ?case using Cons indexOf_ge [of xs job] by (auto simp: Let_def)
qed

lemma indexOf_nth:
  "j \<in> set xs \<Longrightarrow>
     0 \<le> indexOf xs (Some j) \<and> indexOf xs (Some j) < int (length xs) \<and>
     xs ! nat (indexOf xs (Some j)) = j"
proof (induction xs)
  case Nil
  then show ?case by simp
next
  case (Cons x xs)
  show ?case
  proof (cases "x = j")
    case True
    then show ?thesis by simp
  next
    case False
    with Cons.prems have "j \<in> set xs" by simp
    from Cons.IH [OF this] False show ?thesis by (auto simp: Let_def nat_add_distrib)
  qed
qed

lemma set_removeAt:
  "i < length xs \<Longrightarrow> x \<in> set xs \<Longrightarrow> x \<noteq> xs ! i \<Longrightarrow> x \<in> set (removeAt i xs)"
proof -
  assume i: "i < length xs" and x: "x \<in> set xs" and n: "x \<noteq> xs ! i"
  have "xs = take i xs @ xs ! i # drop (Suc i) xs" using i by (simp add: id_take_nth_drop [symmetric])
  then have "set xs = set (take i xs) \<union> {xs ! i} \<union> set (drop (Suc i) xs)"
    by (metis Un_insert_right list.simps(15) set_append sup_bot.right_neutral Un_assoc insert_is_Un)
  with x n show ?thesis by (auto simp: removeAt_def)
qed

lemma distinct_removeAt:
  "distinct xs \<Longrightarrow> i < length xs \<Longrightarrow> xs ! i \<notin> set (removeAt i xs)"
proof -
  assume d: "distinct xs" and i: "i < length xs"
  have e: "xs = take i xs @ xs ! i # drop (Suc i) xs" using i by (simp add: id_take_nth_drop [symmetric])
  from d have "distinct (take i xs @ xs ! i # drop (Suc i) xs)" using e by simp
  then show ?thesis by (auto simp: removeAt_def)
qed

text \<open>What a call of the single-job \<^verbatim>\<open>dequeue_p\<close> that returns has done.\<close>

lemma dequeue_p_Suc_cases:
  assumes "dequeue_p (Suc n) job w = Inr (ok, w')"
  shows "(\<not> ok \<and> w' = w \<and> job \<notin> Some ` set (m_assignments w)) \<or>
         (\<exists>j w1. job = Some j \<and> j \<in> set (m_assignments w) \<and> ok \<and>
            aboutToBeDequeued_with (dequeue_p n) j w = Inr w1 \<and>
            j \<in> set (m_assignments w1) \<and>
            m_assignments w1 ! nat (indexOf (m_assignments w1) job) = j \<and>
            nat (indexOf (m_assignments w1) job) < length (m_assignments w1) \<and>
            w' = emit JobFinished_wakeAll (setStatus j Status_New
                   (w1\<lparr>m_assignments := removeAt (nat (indexOf (m_assignments w1) job)) (m_assignments w1)\<rparr>)))"
proof (cases "indexOf (m_assignments w) job = - 1")
  case True
  with assms show ?thesis by (simp add: indexOf_absent)
next
  case False
  then obtain j where j: "job = Some j" "j \<in> set (m_assignments w)"
    by (auto simp: indexOf_absent)
  with False assms obtain w1 x rest where
    c: "aboutToBeDequeued_with (dequeue_p n) j w = Inr w1" and
    t: "takeAt (indexOf (m_assignments w1) job) (m_assignments w1) = Inr (x, rest)" and
    r: "ok" "w' = emit JobFinished_wakeAll (setStatus x Status_New (w1\<lparr>m_assignments := rest\<rparr>))"
    by (auto simp: Let_def split: sum.splits prod.splits)
  note ta = takeAt_Inr [OF t]
  have "indexOf (m_assignments w1) job \<noteq> - 1" using ta by auto
  then have in1: "j \<in> set (m_assignments w1)" using j(1) by (auto simp: indexOf_absent)
  from indexOf_nth [OF in1] ta j(1) have "x = j" by simp
  with j c r ta in1 indexOf_nth [OF in1] show ?thesis by auto
qed

lemma confined_loop:
  assumes fr: "framed deq"
    and g: "confining d deq"
  shows "dequeueElements_loop deq es this w = Inr w' \<Longrightarrow> \<forall>e \<in> set es. nested d (heap w) e
           \<Longrightarrow> confined {x. nested d (heap w) x} w w'"
proof (induction es arbitrary: w)
  case Nil
  then show ?case by simp
next
  case (Cons e es)
  from Cons.prems(1) obtain b w1 where
    d: "deq (Some e) w = Inr (b, w1)" and l: "dequeueElements_loop deq es this w1 = Inr w'"
    by (auto split: if_splits sum.splits)
  have 1: "confined {x. nested d (heap w) x} w w1"
    using g d Cons.prems(2) by (auto simp: confining_def)
  have "dequeueFrame w w1" using fr d by (auto simp: framed_def)
  then have n: "nested d (heap w1) = nested d (heap w)" by (rule nested_dequeueFrame)
  have "confined {x. nested d (heap w1) x} w1 w'"
    using Cons.IH [OF l] Cons.prems(2) by (simp add: n)
  with 1 show ?case by (auto simp: n intro: confined_trans)
qed

lemma dequeueElements_with_cases:
  assumes "dequeueElements_with deq this w = Inr w'"
  shows "(\<not> api (heap w this) \<and> w' = w) \<or>
         (api (heap w this) \<and>
          (\<exists>w1. dequeueElements_loop deq (elements (heap w this)) this w = Inr w1 \<and>
             w' = (if jobCounter (heap w1 this) \<noteq> 0
                   then finalCleanup this (updJob this (\<lambda>jb. jb\<lparr>jobCounter := 0\<rparr>) w1)
                   else updJob this (\<lambda>jb. jb\<lparr>jobCounter := 0\<rparr>) w1)))"
  using assms by (auto simp: dequeueElements_with_def Let_def split: sum.splits if_splits)

lemma finalCleanup_assignments [simp]: "m_assignments (finalCleanup this w) = m_assignments w"
proof -
  have "policyFrame w (freeQueuePolicyResources this (self (heap w this)) w)"
    by (simp add: freeQueuePolicyResources_def policyFrame_freeAll)
  then show ?thesis by (simp add: finalCleanup_def Let_def setStatus_def policyFrame_fields)
qed

lemma confined_aboutToBeDequeued_with:
  assumes fr: "framed deq"
    and g: "confining d deq"
    and n: "nested (Suc d) (heap w) j"
    and a: "aboutToBeDequeued_with deq j w = Inr w'"
  shows "confined (insert j {x. nested d (heap w) x}) w w' \<and>
         (\<forall>x. \<not> nested d (heap w) x \<longrightarrow> x \<in> set (m_assignments w) \<longrightarrow> x \<in> set (m_assignments w'))"
proof (cases "isCollection (heap w j)")
  case False
  with a show ?thesis by (simp add: aboutToBeDequeued_with_def)
next
  case True
  let ?T = "{x. nested d (heap w) x}"
  from True a obtain w0 where
    e: "dequeueElements_with deq j w = Inr w0" and r: "w' = updJob j (\<lambda>jb. jb\<lparr>api := False\<rparr>) w0"
    by (auto simp: aboutToBeDequeued_with_def split: sum.splits)
  from dequeueElements_with_cases [OF e]
  have "confined (insert j ?T) w w0 \<and>
        (\<forall>x. \<not> nested d (heap w) x \<longrightarrow> x \<in> set (m_assignments w) \<longrightarrow> x \<in> set (m_assignments w0))"
  proof
    assume "\<not> api (heap w j) \<and> w0 = w"
    then show ?thesis by simp
  next
    assume "api (heap w j) \<and>
          (\<exists>w1. dequeueElements_loop deq (elements (heap w j)) j w = Inr w1 \<and>
             w0 = (if jobCounter (heap w1 j) \<noteq> 0
                   then finalCleanup j (updJob j (\<lambda>jb. jb\<lparr>jobCounter := 0\<rparr>) w1)
                   else updJob j (\<lambda>jb. jb\<lparr>jobCounter := 0\<rparr>) w1))"
    then obtain w1 where
      l: "dequeueElements_loop deq (elements (heap w j)) j w = Inr w1" and
      w0: "w0 = (if jobCounter (heap w1 j) \<noteq> 0
                   then finalCleanup j (updJob j (\<lambda>jb. jb\<lparr>jobCounter := 0\<rparr>) w1)
                   else updJob j (\<lambda>jb. jb\<lparr>jobCounter := 0\<rparr>) w1)" by blast
    have el: "\<forall>e \<in> set (elements (heap w j)). nested d (heap w) e" using n True by simp
    have c1: "confined ?T w w1" using confined_loop [OF fr g l el] .
    have a0: "m_assignments w0 = m_assignments w1" unfolding w0 by simp
    have c2: "confined (insert j ?T) w1 w0"
      unfolding w0
      by (auto intro!: confined_trans [OF confined_updJob confined_finalCleanup] confined_updJob)
    from c1 have "confined (insert j ?T) w w1" by (rule confined_mono) auto
    with c2 have "confined (insert j ?T) w w0" by (rule confined_trans [rotated])
    moreover have "\<forall>x. \<not> nested d (heap w) x \<longrightarrow> x \<in> set (m_assignments w) \<longrightarrow> x \<in> set (m_assignments w0)"
      using c1 a0 by (simp add: confined_def)
    ultimately show ?thesis by simp
  qed
  then show ?thesis unfolding r by (auto simp: confined_def)
qed

lemma confining_dequeue_p: "confining d (dequeue_p n :: 's dequeue_fn)"
proof (induction n arbitrary: d)
  case 0
  then show ?case by (simp add: confining_def)
next
  case (Suc n)
  show ?case
    unfolding confining_def
  proof (intro allI impI)
  fix e and w :: "'s world" and ok w'
  assume prems: "dequeue_p (Suc n) (Some e) w = Inr (ok, w')" "nested d (heap w) e"
  let ?T = "{x. nested d (heap w) x}"
  from dequeue_p_Suc_cases [OF prems(1)] show "confined {x. nested d (heap w) x} w w'"
  proof
    assume "\<not> ok \<and> w' = w \<and> Some e \<notin> Some ` set (m_assignments w)"
    then show ?thesis by simp
  next
    assume "\<exists>j w1. Some e = Some j \<and> j \<in> set (m_assignments w) \<and> ok \<and>
            aboutToBeDequeued_with (dequeue_p n) j w = Inr w1 \<and>
            j \<in> set (m_assignments w1) \<and>
            m_assignments w1 ! nat (indexOf (m_assignments w1) (Some e)) = j \<and>
            nat (indexOf (m_assignments w1) (Some e)) < length (m_assignments w1) \<and>
            w' = emit JobFinished_wakeAll (setStatus j Status_New
                   (w1\<lparr>m_assignments := removeAt (nat (indexOf (m_assignments w1) (Some e))) (m_assignments w1)\<rparr>))"
    then obtain w1 where
      c: "aboutToBeDequeued_with (dequeue_p n) e w = Inr w1" and
      i: "m_assignments w1 ! nat (indexOf (m_assignments w1) (Some e)) = e"
         "nat (indexOf (m_assignments w1) (Some e)) < length (m_assignments w1)" and
      r: "w' = emit JobFinished_wakeAll (setStatus e Status_New
                   (w1\<lparr>m_assignments := removeAt (nat (indexOf (m_assignments w1) (Some e))) (m_assignments w1)\<rparr>))"
      by auto
    have c1: "confined ?T w w1"
    proof (cases d)
      case 0
      with prems(2) c show ?thesis by (simp add: aboutToBeDequeued_with_def)
    next
      case d: (Suc d')
      have "nested (Suc d') (heap w) e" using prems(2) d by simp
      from confined_aboutToBeDequeued_with [OF framed_dequeue_p Suc.IH this c]
      have "confined (insert e {x. nested d' (heap w) x}) w w1" by simp
      then show ?thesis
        by (rule confined_mono) (use prems(2) d in \<open>auto dest: nested_Suc simp del: nested.simps\<close>)
    qed
    have c2: "confined ?T w1 w'"
      unfolding r confined_def setStatus_def
      using prems(2) i by (auto intro: set_removeAt)
    from c1 c2 show ?thesis by (rule confined_trans)
  qed
  qed
qed

lemma confined_dequeue_p:
  "dequeue_p n (Some e) w = Inr (ok, w') \<Longrightarrow> nested d (heap w) e
     \<Longrightarrow> confined {x. nested d (heap w) x} w w'"
  using confining_dequeue_p [of d n] by (auto simp: confining_def)

lemma loop_returns:
  assumes fr: "framed deq"
    and g: "confining d deq"
    and t: "returning d deq"
  shows "\<forall>e \<in> set es. nested d (heap w) e \<Longrightarrow> api (heap w this) \<Longrightarrow> \<not> nested d (heap w) this
           \<Longrightarrow> \<exists>w'. dequeueElements_loop deq es this w = Inr w'"
proof (induction es arbitrary: w)
  case Nil
  then show ?case by simp
next
  case (Cons e es)
  have "nested d (heap w) e" using Cons.prems(1) by simp
  with t have "\<exists>ok w1. deq (Some e) w = Inr (ok, w1)" unfolding returning_def by blast
  then obtain ok w1 where d: "deq (Some e) w = Inr (ok, w1)" by blast
  have c: "confined {x. nested d (heap w) x} w w1"
    using g d Cons.prems(1) by (auto simp: confining_def)
  have "dequeueFrame w w1" using fr d by (auto simp: framed_def)
  then have n: "nested d (heap w1) = nested d (heap w)" by (rule nested_dequeueFrame)
  have h: "heap w1 this = heap w this" using c Cons.prems(3) by (simp add: confined_def)
  have "\<exists>w'. dequeueElements_loop deq es this w1 = Inr w'"
    using Cons.IH [of w1] Cons.prems by (simp add: n h)
  with d Cons.prems(2) show ?case by simp
qed

lemma least_nesting:
  assumes "nested d h j" and "isCollection (h j)"
  shows "\<exists>k. Suc k \<le> d \<and> nested (Suc k) h j \<and> \<not> nested k h j"
proof -
  let ?m = "LEAST k. nested k h j"
  have m: "nested ?m h j" using assms(1) by (rule LeastI)
  have le: "?m \<le> d" using assms(1) by (rule Least_le)
  from m assms(2) have "?m \<noteq> 0" by (metis nested.simps(1))
  then obtain k where k: "?m = Suc k" by (cases ?m) auto
  have "\<not> nested k h j" using not_less_Least [of k "\<lambda>k. nested k h j"] k by simp
  with m le k show ?thesis by auto
qed

lemma dequeue_p_returns:
  "nested d (heap w) j \<Longrightarrow> d < n \<Longrightarrow> \<exists>ok w'. dequeue_p n (Some j) (w :: 's world) = Inr (ok, w')"
proof (induction n arbitrary: d j w)
  case 0
  then show ?case by simp
next
  case (Suc n)
  show ?case
  proof (cases "j \<in> set (m_assignments w)")
    case False
    then have "indexOf (m_assignments w) (Some j) = - 1" by (auto simp: indexOf_absent)
    then have "dequeue_p (Suc n) (Some j) w = Inr (False, w)" by simp
    then show ?thesis by blast
  next
    case True
    then have ix: "indexOf (m_assignments w) (Some j) \<noteq> - 1" by (auto simp: indexOf_absent)
    have "\<exists>w1. aboutToBeDequeued_with (dequeue_p n) j w = Inr w1 \<and> j \<in> set (m_assignments w1)"
    proof (cases "isCollection (heap w j)")
      case False
      with True show ?thesis by (simp add: aboutToBeDequeued_with_def)
    next
      case c: True
      from least_nesting [OF Suc.prems(1) c] obtain k where
        k: "Suc k \<le> d" "nested (Suc k) (heap w) j" "\<not> nested k (heap w) j" by blast
      then have kn: "k < n" using Suc.prems(2) by simp
      have el: "\<forall>e \<in> set (elements (heap w j)). nested k (heap w) e" using k(2) c by simp
      have g: "confining k (dequeue_p n :: 's dequeue_fn)" by (rule confining_dequeue_p)
      have t: "returning k (dequeue_p n :: 's dequeue_fn)"
        unfolding returning_def using Suc.IH kn by blast
      have "\<exists>w0. dequeueElements_with (dequeue_p n) j w = Inr w0"
      proof (cases "api (heap w j)")
        case False
        then show ?thesis by (simp add: dequeueElements_with_def)
      next
        case True
        from loop_returns [OF framed_dequeue_p g t el True k(3)] obtain w1 where
          "dequeueElements_loop (dequeue_p n) (elements (heap w j)) j w = Inr w1" by blast
        with True show ?thesis by (simp add: dequeueElements_with_def Let_def)
      qed
      then obtain w1 where a: "aboutToBeDequeued_with (dequeue_p n) j w = Inr w1"
        using c by (auto simp: aboutToBeDequeued_with_def)
      from confined_aboutToBeDequeued_with [OF framed_dequeue_p g k(2) a] k(3) True
      have "j \<in> set (m_assignments w1)" by blast
      with a show ?thesis by blast
    qed
    then obtain w1 where a: "aboutToBeDequeued_with (dequeue_p n) j w = Inr w1"
      and i: "j \<in> set (m_assignments w1)" by blast
    from indexOf_nth [OF i] have "\<exists>x rest. takeAt (indexOf (m_assignments w1) (Some j)) (m_assignments w1) = Inr (x, rest)"
      by (simp add: takeAt_def)
    with ix a show ?thesis by (auto simp: Let_def)
  qed
qed

lemmas dequeue_defs = eval_defs numeral_2_eq_2 aboutToBeDequeued_def aboutToBeDequeued_with_def
  dequeueElements_with_def takeAt_def finalCleanup_def freeQueuePolicyResources_def

lemma distinct_subseq: "subseq xs ys \<Longrightarrow> distinct ys \<Longrightarrow> distinct xs"
proof (induction rule: list_emb.induct)
  case (list_emb_Nil ys)
  then show ?case by simp
next
  case (list_emb_Cons xs ys y)
  then show ?case by simp
next
  case (list_emb_Cons2 x y xs ys)
  then have "set xs \<subseteq> set ys" by (auto dest: list_emb_set)
  with list_emb_Cons2 show ?case by auto
qed

lemma dequeue_p_absent:
  assumes "dequeue_p n (Some j) w = Inr (ok, w')" and "distinct (m_assignments w)"
  shows "j \<notin> set (m_assignments w')"
proof -
  from assms(1) obtain m where n: "n = Suc m" by (cases n) auto
  from dequeue_p_Suc_cases [OF assms(1) [unfolded n]] show ?thesis
  proof
    assume "\<not> ok \<and> w' = w \<and> Some j \<notin> Some ` set (m_assignments w)"
    then show ?thesis by auto
  next
    assume "\<exists>ja w1. Some j = Some ja \<and> ja \<in> set (m_assignments w) \<and> ok \<and>
            aboutToBeDequeued_with (dequeue_p m) ja w = Inr w1 \<and>
            ja \<in> set (m_assignments w1) \<and>
            m_assignments w1 ! nat (indexOf (m_assignments w1) (Some j)) = ja \<and>
            nat (indexOf (m_assignments w1) (Some j)) < length (m_assignments w1) \<and>
            w' = emit JobFinished_wakeAll (setStatus ja Status_New
                   (w1\<lparr>m_assignments := removeAt (nat (indexOf (m_assignments w1) (Some j))) (m_assignments w1)\<rparr>))"
    then obtain w1 where
      c: "aboutToBeDequeued_with (dequeue_p m) j w = Inr w1"
         "m_assignments w1 ! nat (indexOf (m_assignments w1) (Some j)) = j"
         "nat (indexOf (m_assignments w1) (Some j)) < length (m_assignments w1)"
         "w' = emit JobFinished_wakeAll (setStatus j Status_New
                   (w1\<lparr>m_assignments := removeAt (nat (indexOf (m_assignments w1) (Some j))) (m_assignments w1)\<rparr>))"
      by auto
    have "dequeueFrame w w1" using dequeueFrame_aboutToBeDequeued_with [OF framed_dequeue_p c(1)] .
    then have "subseq (m_assignments w1) (m_assignments w)" by (simp add: dequeueFrame_def)
    then have "distinct (m_assignments w1)" using assms(2) by (rule distinct_subseq)
    from distinct_removeAt [OF this c(3)] c(2,4) show ?thesis by (simp add: setStatus_def)
  qed
qed

text \<open>
  C6. A call of \<^verbatim>\<open>dequeue_p(job)\<close> that returns, returns true exactly when the job is in
  the assignments. When it returns true, \<^verbatim>\<open>aboutToBeDequeued\<close> ran in the world of the
  call, where the job was still queued; the job is still queued after the callback and is
  then taken out at its position, its status becomes New, nothing else of the heap
  changes, and \<^verbatim>\<open>jobFinished\<close> is woken. When it returns false the world is unchanged.
  The call does return, given fuel beyond the depth at which the job is nested. And
  \<^verbatim>\<open>dequeue(job)\<close> is this \<^verbatim>\<open>dequeue_p(job)\<close> in every state but InConstruction and
  Destructed.
\<close>

theorem dequeue_p_result:
  "(dequeue_p n job w = Inr (ok, w') \<longrightarrow>
      (ok \<longleftrightarrow> (\<exists>j. job = Some j \<and> j \<in> set (m_assignments w))) \<and>
      (ok \<longrightarrow>
         (\<exists>j w1. job = Some j \<and> j \<in> set (m_assignments w) \<and>
            aboutToBeDequeued (n - 1) j w = Inr w1 \<and>
            j \<in> set (m_assignments w1) \<and>
            m_assignments w1 ! nat (indexOf (m_assignments w1) job) = j \<and>
            m_assignments w' = removeAt (nat (indexOf (m_assignments w1) job)) (m_assignments w1) \<and>
            heap w' = (heap w1)(j := (heap w1 j)\<lparr>status := Status_New\<rparr>) \<and>
            status (heap w' j) = Status_New \<and>
            trace w' = trace w1 @ [JobFinished_wakeAll])) \<and>
      (\<not> ok \<longrightarrow> w' = w)) \<and>
   (nested d (heap w) j \<and> d < n \<longrightarrow> (\<exists>ok w'. dequeue_p n (Some j) w = Inr (ok, w'))) \<and>
   (m_state w \<notin> {InConstruction, Destructed} \<longrightarrow> dequeue n job w = dequeue_p n job w)"
proof (intro conjI impI)
  assume a: "dequeue_p n job w = Inr (ok, w')"
  then obtain m where n: "n = Suc m" by (cases n) auto
  note c = dequeue_p_Suc_cases [OF a [unfolded n]]
  from c show "ok \<longleftrightarrow> (\<exists>j. job = Some j \<and> j \<in> set (m_assignments w))" by auto
  from c show "w' = w" if "\<not> ok" using that by auto
  show "\<exists>j w1. job = Some j \<and> j \<in> set (m_assignments w) \<and>
            aboutToBeDequeued (n - 1) j w = Inr w1 \<and>
            j \<in> set (m_assignments w1) \<and>
            m_assignments w1 ! nat (indexOf (m_assignments w1) job) = j \<and>
            m_assignments w' = removeAt (nat (indexOf (m_assignments w1) job)) (m_assignments w1) \<and>
            heap w' = (heap w1)(j := (heap w1 j)\<lparr>status := Status_New\<rparr>) \<and>
            status (heap w' j) = Status_New \<and>
            trace w' = trace w1 @ [JobFinished_wakeAll]" if ok
  proof -
    from c that obtain j w1 where
      j: "job = Some j" "j \<in> set (m_assignments w)"
         "aboutToBeDequeued_with (dequeue_p m) j w = Inr w1" "j \<in> set (m_assignments w1)"
         "m_assignments w1 ! nat (indexOf (m_assignments w1) job) = j"
         "w' = emit JobFinished_wakeAll (setStatus j Status_New
                   (w1\<lparr>m_assignments := removeAt (nat (indexOf (m_assignments w1) job)) (m_assignments w1)\<rparr>))"
      by auto
    show ?thesis
      using j by (intro exI [of _ j] exI [of _ w1]) (simp add: n aboutToBeDequeued_def setStatus_def)
  qed
next
  assume "nested d (heap w) j \<and> d < n"
  then show "\<exists>ok w'. dequeue_p n (Some j) w = Inr (ok, w')" by (auto intro: dequeue_p_returns)
next
  assume "m_state w \<notin> {InConstruction, Destructed}"
  then show "dequeue n job w = dequeue_p n job w" by (simp add: dequeue_def)
qed

theorem dequeue_p_result_witness:
  "dequeue_p 2 (Some 1) queuedCollection
     = Inr (True, snd (projr (dequeue_p 2 (Some 1) queuedCollection))) \<and>
   1 \<in> set (m_assignments queuedCollection) \<and>
   m_assignments (snd (projr (dequeue_p 2 (Some 1) queuedCollection))) = [] \<and>
   status (heap (snd (projr (dequeue_p 2 (Some 1) queuedCollection))) 1) = Status_New \<and>
   dequeue_p 2 (Some 5) queuedCollection = Inr (False, queuedCollection) \<and>
   5 \<notin> set (m_assignments queuedCollection) \<and>
   nested 1 (heap queuedCollection) 1 \<and>
   (\<exists>ok w'. dequeue_p 2 (Some 1) queuedCollection = Inr (ok, w')) \<and>
   m_state queuedCollection = WorkingHard \<and>
   dequeue 2 (Some 1) queuedCollection = dequeue_p 2 (Some 1) queuedCollection"
proof -
  let ?W = "snd (projr (dequeue_p 2 (Some 1) queuedCollection))"
  have h: "dequeue_p 2 (Some 1) queuedCollection = Inr (True, ?W)"
    by (simp add: queuedCollection_def dequeue_defs)
  have f: "dequeue_p 2 (Some 5) queuedCollection = Inr (False, queuedCollection)"
    by (simp add: queuedCollection_def dequeue_defs)
  have a: "m_assignments queuedCollection = [0, 1]" by (simp add: queuedCollection_def eval_defs)
  have e: "m_assignments ?W = []" by (simp add: queuedCollection_def dequeue_defs)
  have n: "nested 1 (heap queuedCollection) 1" by (simp add: queuedCollection_def eval_defs)
  note t = dequeue_p_result [of 2 "Some 1" queuedCollection True ?W 1 1]
  from t h have s: "\<exists>j w1. Some 1 = Some j \<and> status (heap ?W j) = Status_New" by blast
  from t n have r: "\<exists>ok w'. dequeue_p 2 (Some 1) queuedCollection = Inr (ok, w')" by simp
  note t' = dequeue_p_result [of 2 "Some 5" queuedCollection False queuedCollection 1 1]
  from t' f have "\<not> (\<exists>j. Some 5 = Some j \<and> j \<in> set (m_assignments queuedCollection))" by blast
  then have g: "5 \<notin> set (m_assignments queuedCollection)" by simp
  from s have s': "status (heap ?W 1) = Status_New" by simp
  have m: "m_state queuedCollection = WorkingHard" by (simp add: queuedCollection_def eval_defs)
  with t have d: "dequeue 2 (Some 1) queuedCollection = dequeue_p 2 (Some 1) queuedCollection"
    by simp
  from h f a e n r g s' m d show ?thesis by simp
qed

text \<open>
  C10. When the assignments hold no job twice and \<^verbatim>\<open>dequeue_p(job)\<close> returns true, the
  job is not in the assignments afterwards, whatever its callback removed: the position
  at which it is taken out is its position in the list that the callback left.
\<close>

theorem dequeue_p_removes:
  assumes "distinct (m_assignments w)" and "dequeue_p n (Some j) w = Inr (True, w')"
  shows "j \<notin> set (m_assignments w') \<and>
         (\<exists>w1. aboutToBeDequeued (n - 1) j w = Inr w1 \<and>
            m_assignments w' = removeAt (nat (indexOf (m_assignments w1) (Some j))) (m_assignments w1))"
proof -
  from assms(2) obtain m where n: "n = Suc m" by (cases n) auto
  from dequeue_p_Suc_cases [OF assms(2) [unfolded n]] obtain w1 where
    "aboutToBeDequeued_with (dequeue_p m) j w = Inr w1"
    "w' = emit JobFinished_wakeAll (setStatus j Status_New
            (w1\<lparr>m_assignments := removeAt (nat (indexOf (m_assignments w1) (Some j))) (m_assignments w1)\<rparr>))"
    by auto
  then have "aboutToBeDequeued (n - 1) j w = Inr w1 \<and>
      m_assignments w' = removeAt (nat (indexOf (m_assignments w1) (Some j))) (m_assignments w1)"
    by (simp add: n aboutToBeDequeued_def setStatus_def)
  with dequeue_p_absent [OF assms(2,1)] show ?thesis by blast
qed

theorem dequeue_p_removes_witness:
  "distinct (m_assignments queuedCollection) \<and>
   dequeue_p 2 (Some 1) queuedCollection
     = Inr (True, snd (projr (dequeue_p 2 (Some 1) queuedCollection))) \<and>
   indexOf (m_assignments queuedCollection) (Some 1) = 1 \<and>
   m_assignments (projr (aboutToBeDequeued 1 1 queuedCollection)) = [1] \<and>
   1 \<notin> set (m_assignments (snd (projr (dequeue_p 2 (Some 1) queuedCollection))))"
proof -
  let ?W = "snd (projr (dequeue_p 2 (Some 1) queuedCollection))"
  have a: "m_assignments queuedCollection = [0, 1]" by (simp add: queuedCollection_def eval_defs)
  then have d: "distinct (m_assignments queuedCollection)" by simp
  have h: "dequeue_p 2 (Some 1) queuedCollection = Inr (True, ?W)"
    by (simp add: queuedCollection_def dequeue_defs)
  have i: "indexOf (m_assignments queuedCollection) (Some 1) = 1" by (simp add: a)
  have c: "m_assignments (projr (aboutToBeDequeued 1 1 queuedCollection)) = [1]"
    by (simp add: queuedCollection_def dequeue_defs)
  from dequeue_p_removes [OF d h] have "1 \<notin> set (m_assignments ?W)" by blast
  with d h i c show ?thesis by blast
qed

text \<open>
  C5. The remove-all \<^verbatim>\<open>dequeue_p()\<close> on two queued jobs leaves both with the status
  Queued and never wakes \<^verbatim>\<open>jobFinished\<close>; the single-job \<^verbatim>\<open>dequeue_p(job)\<close> on the same
  world sets the status New and wakes \<^verbatim>\<open>jobFinished\<close>.
\<close>

theorem dequeue_p_all_keeps_Queued:
  "(\<exists>W. dequeue_p_all 0 twoJobs = Inr W \<and> m_assignments W = [] \<and>
        status (heap W 0) = Status_Queued \<and> status (heap W 1) = Status_Queued \<and>
        JobFinished_wakeAll \<notin> set (trace W)) \<and>
   (\<exists>W. dequeue_p 1 (Some 0) twoJobs = Inr (True, W) \<and> m_assignments W = [1] \<and>
        status (heap W 0) = Status_New \<and> JobFinished_wakeAll \<in> set (trace W))"
  by (simp add: twoJobs_def dequeue_defs dequeue_p_all_def dequeueAll_loop.simps)

subsection \<open>The barrier of a collection\<close>

lemma freeAll_trace:
  "trace (freeAll ps job w) = trace w @ map (\<lambda>p. PolicyFree p job) ps"
  by (induction ps arbitrary: w) (simp_all add: policy_free_def)

lemma finalCleanup_heap:
  "heap (finalCleanup this w) = (heap w)(this := (heap w this)\<lparr>status := Status_Success, api := False\<rparr>)"
proof -
  have "policyFrame w (freeQueuePolicyResources this (self (heap w this)) w)"
    by (simp add: freeQueuePolicyResources_def policyFrame_freeAll)
  then show ?thesis
    by (simp add: finalCleanup_def Let_def setStatus_def policyFrame_fields fun_eq_iff)
qed

lemma finalCleanup_trace:
  "trace (finalCleanup this w)
     = trace w @ map (\<lambda>p. PolicyFree p (self (heap w this))) (queuePolicies (heap w this))"
  by (simp add: finalCleanup_def Let_def setStatus_def freeQueuePolicyResources_def freeAll_trace)

lemma enqueueJob_keeps:
  "jobCounter (heap (enqueueJob job w) x) = jobCounter (heap w x) \<and>
   self (heap (enqueueJob job w) x) = self (heap w x) \<and>
   selfIsExecuting (heap (enqueueJob job w) x) = selfIsExecuting (heap w x) \<and>
   queuePolicies (heap (enqueueJob job w) x) = queuePolicies (heap w x) \<and>
   elements (heap (enqueueJob job w) x) = elements (heap w x)"
  by (simp add: enqueueJob_def Let_def reschedule_def setStatus_def aboutToBeQueued_def)

lemma enqueueEach_keeps:
  "jobCounter (heap (enqueueEach jobs w) x) = jobCounter (heap w x) \<and>
   self (heap (enqueueEach jobs w) x) = self (heap w x) \<and>
   selfIsExecuting (heap (enqueueEach jobs w) x) = selfIsExecuting (heap w x) \<and>
   queuePolicies (heap (enqueueEach jobs w) x) = queuePolicies (heap w x) \<and>
   elements (heap (enqueueEach jobs w) x) = elements (heap w x)"
  by (induction jobs w rule: enqueueEach.induct) (simp_all add: enqueueJob_keeps)

lemma enqueue_keeps:
  "jobCounter (heap (enqueue jobs w) x) = jobCounter (heap w x) \<and>
   self (heap (enqueue jobs w) x) = self (heap w x) \<and>
   selfIsExecuting (heap (enqueue jobs w) x) = selfIsExecuting (heap w x) \<and>
   queuePolicies (heap (enqueue jobs w) x) = queuePolicies (heap w x) \<and>
   elements (heap (enqueue jobs w) x) = elements (heap w x)"
  by (simp add: enqueue_def enqueue_p_def enqueueEach_keeps)

lemmas collection_defs = dequeue_defs JobCollection_execute_begin_def elementFinished_def
  enqueueElements_def enqueue_def stop_def dequeue_def dequeueElements_def

text \<open>
  C4. \<^verbatim>\<open>elementFinished\<close> returns unless the collection is executing itself and bound to
  no weaver. On the call that finds \<^verbatim>\<open>selfIsExecuting\<close> set, \<^verbatim>\<open>jobCounter\<close> is set to
  N + 1 for the N elements, the N elements are handed to the weaver in one \<^verbatim>\<open>enqueue\<close>
  and \<^verbatim>\<open>selfIsExecuting\<close> is cleared. Every call leaves \<^verbatim>\<open>jobCounter\<close> one below (N
  after that first call). Exactly when the counter reaches zero the cleanup runs:
  \<^verbatim>\<open>free\<close> is called on every policy of the collection with the self pointer, the
  status becomes Success, the binding to the weaver is cleared, the default end of the
  executor is called with the self pointer, and the self pointer is dropped; on every
  other call the status, the binding, the self pointer, the trace and the policy state
  are those after the enqueue.
\<close>

theorem elementFinished_effect:
  "((selfIsExecuting (heap w this) \<longrightarrow> api (heap w this))
      \<longrightarrow> (\<exists>w'. elementFinished this job th w = Inr w')) \<and>
   (elementFinished this job th w = Inr w' \<longrightarrow>
      (let es = elements (heap w this);
           first = selfIsExecuting (heap w this);
           w1 = (if first
                 then enqueue (map Some es)
                        (updJob this (\<lambda>jb. jb\<lparr>jobCounter := int (length es) + 1\<rparr>) w)
                 else w);
           remaining = (if first then int (length es) else jobCounter (heap w this) - 1)
       in (first \<longrightarrow> api (heap w this)) \<and>
          m_assignments w' = m_assignments w1 \<and>
          \<not> selfIsExecuting (heap w' this) \<and>
          jobCounter (heap w' this) = remaining \<and>
          (if remaining = 0 then
             status (heap w' this) = Status_Success \<and> \<not> api (heap w' this) \<and>
             self (heap w' this) = None \<and>
             trace w' = trace w1
               @ map (\<lambda>p. PolicyFree p (self (heap w this))) (queuePolicies (heap w this))
               @ [Executor_defaultEnd this (self (heap w this)) th]
           else
             status (heap w' this) = status (heap w1 this) \<and>
             api (heap w' this) = api (heap w1 this) \<and>
             self (heap w' this) = self (heap w this) \<and>
             trace w' = trace w1 \<and> policyState w' = policyState w1)))"
proof (intro conjI impI)
  assume "selfIsExecuting (heap w this) \<longrightarrow> api (heap w this)"
  then show "\<exists>w'. elementFinished this job th w = Inr w'"
    by (simp add: elementFinished_def enqueueElements_def Let_def)
next
  assume a: "elementFinished this job th w = Inr w'"
  let ?es = "elements (heap w this)"
  let ?w0 = "updJob this (\<lambda>jb. jb\<lparr>jobCounter := int (length ?es) + 1\<rparr>) w"
  let ?w1 = "if selfIsExecuting (heap w this) then enqueue (map Some ?es) ?w0 else w"
  let ?rem = "if selfIsExecuting (heap w this) then int (length ?es) else jobCounter (heap w this) - 1"
  have ap: "selfIsExecuting (heap w this) \<longrightarrow> api (heap w this)"
    using a by (auto simp: elementFinished_def enqueueElements_def Let_def split: if_splits)
  define v where "v = (if selfIsExecuting (heap w this)
      then updJob this (\<lambda>jb. jb\<lparr>selfIsExecuting := False\<rparr>) (enqueue (map Some ?es) ?w0) else w)"
  have k: "jobCounter (heap v this) - 1 = ?rem" "\<not> selfIsExecuting (heap v this)"
    "self (heap v this) = self (heap w this)" "queuePolicies (heap v this) = queuePolicies (heap w this)"
    "m_assignments v = m_assignments ?w1" "trace v = trace ?w1" "policyState v = policyState ?w1"
    "status (heap v this) = status (heap ?w1 this)" "api (heap v this) = api (heap ?w1 this)"
    by (simp_all add: v_def enqueue_keeps)
  define v2 where "v2 = updJob this (\<lambda>jb. jb\<lparr>jobCounter := ?rem\<rparr>) v"
  have r: "w' = (if ?rem = 0 then
                   updJob this (\<lambda>jb. jb\<lparr>self := None\<rparr>)
                     (emit (Executor_defaultEnd this (self (heap (finalCleanup this v2) this)) th)
                        (finalCleanup this v2))
                 else v2)"
    using a ap k(1) unfolding elementFinished_def enqueueElements_def v_def v2_def
    by (auto simp: Let_def split: if_splits)
  have "(selfIsExecuting (heap w this) \<longrightarrow> api (heap w this)) \<and>
          m_assignments w' = m_assignments ?w1 \<and>
          \<not> selfIsExecuting (heap w' this) \<and>
          jobCounter (heap w' this) = ?rem \<and>
          (if ?rem = 0 then
             status (heap w' this) = Status_Success \<and> \<not> api (heap w' this) \<and>
             self (heap w' this) = None \<and>
             trace w' = trace ?w1
               @ map (\<lambda>p. PolicyFree p (self (heap w this))) (queuePolicies (heap w this))
               @ [Executor_defaultEnd this (self (heap w this)) th]
           else
             status (heap w' this) = status (heap ?w1 this) \<and>
             api (heap w' this) = api (heap ?w1 this) \<and>
             self (heap w' this) = self (heap w this) \<and>
             trace w' = trace ?w1 \<and> policyState w' = policyState ?w1)"
  proof (cases "?rem = 0")
    case True
    with r have w': "w' = updJob this (\<lambda>jb. jb\<lparr>self := None\<rparr>)
                     (emit (Executor_defaultEnd this (self (heap (finalCleanup this v2) this)) th)
                        (finalCleanup this v2))" by simp
    show ?thesis
      using True ap k unfolding w' v2_def
      by (simp add: finalCleanup_heap finalCleanup_trace)
  next
    case False
    with r have w': "w' = v2" by simp
    show ?thesis using False ap k unfolding w' v2_def by simp
  qed
  then show "let es = elements (heap w this);
           first = selfIsExecuting (heap w this);
           w1 = (if first
                 then enqueue (map Some es)
                        (updJob this (\<lambda>jb. jb\<lparr>jobCounter := int (length es) + 1\<rparr>) w)
                 else w);
           remaining = (if first then int (length es) else jobCounter (heap w this) - 1)
       in (first \<longrightarrow> api (heap w this)) \<and>
          m_assignments w' = m_assignments w1 \<and>
          \<not> selfIsExecuting (heap w' this) \<and>
          jobCounter (heap w' this) = remaining \<and>
          (if remaining = 0 then
             status (heap w' this) = Status_Success \<and> \<not> api (heap w' this) \<and>
             self (heap w' this) = None \<and>
             trace w' = trace w1
               @ map (\<lambda>p. PolicyFree p (self (heap w this))) (queuePolicies (heap w this))
               @ [Executor_defaultEnd this (self (heap w this)) th]
           else
             status (heap w' this) = status (heap w1 this) \<and>
             api (heap w' this) = api (heap w1 this) \<and>
             self (heap w' this) = self (heap w this) \<and>
             trace w' = trace w1 \<and> policyState w' = policyState w1)"
    unfolding Let_def .
qed

theorem elementFinished_effect_witness:
  "selfIsExecuting (heap runningCollection 1) \<and> api (heap runningCollection 1) \<and>
   elementFinished 1 (Some 1) 0 runningCollection = Inr elementsQueued \<and>
   m_assignments elementsQueued = [0, 2] \<and>
   jobCounter (heap elementsQueued 1) = 2 \<and>
   \<not> selfIsExecuting (heap elementsQueued 1) \<and>
   elementFinished 1 (Some 2) 1 (projr (elementFinished 1 (Some 0) 0 elementsQueued))
     = Inr (projr (elementFinished 1 (Some 2) 1 (projr (elementFinished 1 (Some 0) 0 elementsQueued)))) \<and>
   jobCounter (heap (projr (elementFinished 1 (Some 2) 1
                       (projr (elementFinished 1 (Some 0) 0 elementsQueued)))) 1) = 0 \<and>
   status (heap (projr (elementFinished 1 (Some 2) 1
                    (projr (elementFinished 1 (Some 0) 0 elementsQueued)))) 1) = Status_Success \<and>
   self (heap (projr (elementFinished 1 (Some 2) 1
                  (projr (elementFinished 1 (Some 0) 0 elementsQueued)))) 1) = None"
proof -
  let ?F2 = "projr (elementFinished 1 (Some 0) 0 elementsQueued)"
  let ?F3 = "projr (elementFinished 1 (Some 2) 1 ?F2)"
  have p: "selfIsExecuting (heap runningCollection 1)" "api (heap runningCollection 1)"
    "elements (heap runningCollection 1) = [0, 2]"
    by (simp_all add: runningCollection_def collection_defs)
  have "\<exists>w'. elementFinished 1 (Some 1) 0 runningCollection = Inr w'"
    using elementFinished_effect [of runningCollection 1 "Some 1" 0] p by blast
  then have h1: "elementFinished 1 (Some 1) 0 runningCollection = Inr elementsQueued"
    by (auto simp: elementsQueued_def)
  note t1 = elementFinished_effect [of runningCollection 1 "Some 1" 0 elementsQueued, unfolded Let_def]
  from t1 h1 p have c1: "jobCounter (heap elementsQueued 1) = 2"
    "\<not> selfIsExecuting (heap elementsQueued 1)" by simp_all
  have a1: "m_assignments elementsQueued = [0, 2]"
    by (simp add: elementsQueued_def runningCollection_def collection_defs)
  have q: "\<not> selfIsExecuting (heap ?F2 1)" "jobCounter (heap ?F2 1) = 1"
    by (simp_all add: elementsQueued_def runningCollection_def collection_defs)
  have "\<exists>w'. elementFinished 1 (Some 2) 1 ?F2 = Inr w'"
    using elementFinished_effect [of ?F2 1 "Some 2" 1] q by blast
  then have h3: "elementFinished 1 (Some 2) 1 ?F2 = Inr ?F3" by auto
  note t3 = elementFinished_effect [of ?F2 1 "Some 2" 1 ?F3, unfolded Let_def]
  from t3 h3 q have c3: "jobCounter (heap ?F3 1) = 0" "status (heap ?F3 1) = Status_Success"
    "self (heap ?F3 1) = None" by simp_all
  from p h1 a1 c1 h3 c3 show ?thesis by blast
qed

subsection \<open>Stopping a collection\<close>

lemma removingAt_dequeue_p: "removingAt st (dequeue_p n)"
  by (auto simp: removingAt_def dest: dequeue_p_absent)

lemma removingAt_dequeue: "st \<notin> {InConstruction, Destructed} \<Longrightarrow> removingAt st (dequeue n)"
  by (auto simp: removingAt_def dequeue_def dest: dequeue_p_absent)

lemma confining_dequeue: "confining d (dequeue n :: 's dequeue_fn)"
  using confining_dequeue_p [of d n, where ?'s = 's]
  by (auto simp: confining_def dequeue_def split: if_splits)

lemma returning_dequeue: "d < n \<Longrightarrow> returning d (dequeue n)"
  by (auto simp: returning_def dequeue_def intro: dequeue_p_returns)

lemma loop_absent:
  assumes fr: "framed deq" and rm: "removingAt st deq"
  shows "dequeueElements_loop deq es this w = Inr w' \<Longrightarrow> m_state w = st \<Longrightarrow>
           distinct (m_assignments w) \<Longrightarrow> \<forall>e \<in> set es. e \<notin> set (m_assignments w')"
proof (induction es arbitrary: w)
  case Nil
  then show ?case by simp
next
  case (Cons e es)
  from Cons.prems(1) obtain b w1 where
    d: "deq (Some e) w = Inr (b, w1)" and l: "dequeueElements_loop deq es this w1 = Inr w'"
    by (auto split: if_splits sum.splits)
  have e1: "e \<notin> set (m_assignments w1)"
    using rm d Cons.prems(2,3) unfolding removingAt_def by blast
  have f1: "dequeueFrame w w1" using fr d by (auto simp: framed_def)
  then have s1: "m_state w1 = st" "distinct (m_assignments w1)"
    using Cons.prems(2,3) by (auto simp: dequeueFrame_def intro: distinct_subseq)
  have "subseq (m_assignments w') (m_assignments w1)"
    using dequeueFrame_loop [OF fr l] by (simp add: dequeueFrame_def)
  then have "set (m_assignments w') \<subseteq> set (m_assignments w1)" by (auto dest: list_emb_set)
  with e1 Cons.IH [OF l s1] show ?case by auto
qed

lemma dequeueElements_with_effect:
  assumes fr: "framed deq" and g: "confining k deq"
    and c: "isCollection (heap w this)" and q: "api (heap w this)"
    and nk: "nested (Suc k) (heap w) this" "\<not> nested k (heap w) this"
    and dist: "distinct (m_assignments w)"
    and r: "dequeueElements_with deq this w = Inr w'"
  shows "\<exists>w1. dequeueElements_loop deq (elements (heap w this)) this w = Inr w1 \<and>
           heap w1 this = heap w this \<and> dequeueFrame w w1 \<and>
           (removingAt (m_state w) deq \<longrightarrow> (\<forall>e \<in> set (elements (heap w this)). e \<notin> set (m_assignments w1))) \<and>
           w' = (if jobCounter (heap w this) \<noteq> 0
                 then finalCleanup this (updJob this (\<lambda>jb. jb\<lparr>jobCounter := 0\<rparr>) w1)
                 else updJob this (\<lambda>jb. jb\<lparr>jobCounter := 0\<rparr>) w1)"
proof -
  from dequeueElements_with_cases [OF r] q obtain w1 where
    l: "dequeueElements_loop deq (elements (heap w this)) this w = Inr w1" and
    w': "w' = (if jobCounter (heap w1 this) \<noteq> 0
                   then finalCleanup this (updJob this (\<lambda>jb. jb\<lparr>jobCounter := 0\<rparr>) w1)
                   else updJob this (\<lambda>jb. jb\<lparr>jobCounter := 0\<rparr>) w1)" by auto
  have el: "\<forall>e \<in> set (elements (heap w this)). nested k (heap w) e" using nk(1) c by simp
  have "confined {x. nested k (heap w) x} w w1" using confined_loop [OF fr g l el] .
  then have h: "heap w1 this = heap w this" using nk(2) by (simp add: confined_def)
  have f: "dequeueFrame w w1" using dequeueFrame_loop [OF fr l] .
  have a: "removingAt (m_state w) deq \<longrightarrow> (\<forall>e \<in> set (elements (heap w this)). e \<notin> set (m_assignments w1))"
    using loop_absent [OF fr _ l refl dist] by blast
  from l h f a w' show ?thesis by auto
qed

lemma aboutToBeDequeued_with_effect:
  assumes c: "isCollection (heap w this)" and q: "api (heap w this)"
    and n: "nested d (heap w) this" and dist: "distinct (m_assignments w)"
    and r: "aboutToBeDequeued_with (dequeue_p m) this w = Inr w'"
  shows "jobCounter (heap w' this) = 0 \<and> \<not> api (heap w' this) \<and> dequeueFrame w w' \<and>
         (\<forall>e \<in> set (elements (heap w this)). e \<notin> set (m_assignments w')) \<and>
         (jobCounter (heap w this) \<noteq> 0 \<longrightarrow>
            (\<exists>pre. trace w' = pre @ map (\<lambda>p. PolicyFree p (self (heap w this)))
                                      (queuePolicies (heap w this))))"
proof -
  from least_nesting [OF n c] obtain k where
    k: "nested (Suc k) (heap w) this" "\<not> nested k (heap w) this" by blast
  from r c obtain v0 where
    e: "dequeueElements_with (dequeue_p m) this w = Inr v0" and
    w': "w' = updJob this (\<lambda>jb. jb\<lparr>api := False\<rparr>) v0"
    by (auto simp: aboutToBeDequeued_with_def split: sum.splits)
  from dequeueElements_with_effect [OF framed_dequeue_p confining_dequeue_p c q k dist e]
  obtain w1 where
    h: "heap w1 this = heap w this" and
    a: "\<forall>e \<in> set (elements (heap w this)). e \<notin> set (m_assignments w1)" and
    v0: "v0 = (if jobCounter (heap w this) \<noteq> 0
                 then finalCleanup this (updJob this (\<lambda>jb. jb\<lparr>jobCounter := 0\<rparr>) w1)
                 else updJob this (\<lambda>jb. jb\<lparr>jobCounter := 0\<rparr>) w1)"
    using removingAt_dequeue_p by blast
  have f: "dequeueFrame w w'"
    using dequeueFrame_aboutToBeDequeued_with [OF framed_dequeue_p r] .
  show ?thesis
    using h a f unfolding w' v0
    by (simp add: finalCleanup_heap finalCleanup_trace)
qed

text \<open>
  Where no mutex that the thread holds is the mutex of a job nested at the depth of the
  call, no mutex is refused.
\<close>

lemma loop_unrefused:
  assumes fr: "framed deq"
    and eq: "\<And>e v. nested k (heap v) e \<Longrightarrow> \<forall>x. JobMutex x \<in> held \<longrightarrow> \<not> nested k (heap v) x
                \<Longrightarrow> deqH (Some e) v = deq (Some e) v"
  shows "\<forall>e \<in> set es. nested k (heap w) e \<Longrightarrow> \<forall>x. JobMutex x \<in> held \<longrightarrow> \<not> nested k (heap w) x
           \<Longrightarrow> dequeueElements_loop deqH es this w = dequeueElements_loop deq es this w"
proof (induction es arbitrary: w)
  case Nil
  show ?case by simp
next
  case (Cons e es)
  have eq1: "deqH (Some e) w = deq (Some e) w" using eq [of w e] Cons.prems by simp
  show ?case
  proof (cases "deq (Some e) w")
    case (Inl err)
    with eq1 show ?thesis by simp
  next
    case (Inr r)
    obtain b w1 where r: "r = (b, w1)" by (cases r)
    have "dequeueFrame w w1" using fr Inr r by (auto simp: framed_def)
    then have n: "nested k (heap w1) = nested k (heap w)" by (rule nested_dequeueFrame)
    have "dequeueElements_loop deqH es this w1 = dequeueElements_loop deq es this w1"
      using Cons.IH [of w1] Cons.prems by (simp add: n)
    with eq1 Inr r show ?thesis by simp
  qed
qed

lemma Job_aboutToBeDequeued_unrefused:
  assumes fr: "framed deq"
    and eq: "\<And>k e v. k < d \<Longrightarrow> nested k (heap v) e
                \<Longrightarrow> \<forall>x. JobMutex x \<in> insert (JobMutex j) held \<longrightarrow> \<not> nested k (heap v) x
                \<Longrightarrow> deqH (insert (JobMutex j) held) (Some e) v = deq (Some e) v"
    and n: "nested d (heap w) j"
    and h: "\<forall>x. JobMutex x \<in> held \<longrightarrow> \<not> nested d (heap w) x"
  shows "Job_aboutToBeDequeued deqH held j w = aboutToBeDequeued_with deq j w"
proof -
  let ?held = "insert (JobMutex j) held"
  have nh: "JobMutex j \<notin> held" using n h by blast
  have "aboutToBeDequeued_with (deqH ?held) j w = aboutToBeDequeued_with deq j w"
  proof (cases "isCollection (heap w j)")
    case False
    then show ?thesis by (simp add: aboutToBeDequeued_with_def)
  next
    case c: True
    from least_nesting [OF n c] obtain k where
      k: "Suc k \<le> d" "nested (Suc k) (heap w) j" "\<not> nested k (heap w) j" by blast
    then have kd: "k < d" by simp
    have el: "\<forall>e \<in> set (elements (heap w j)). nested k (heap w) e" using k(2) c by simp
    have hk: "\<forall>x. JobMutex x \<in> ?held \<longrightarrow> \<not> nested k (heap w) x"
    proof (intro allI impI)
      fix x assume "JobMutex x \<in> ?held"
      then consider "x = j" | "JobMutex x \<in> held" by auto
      then show "\<not> nested k (heap w) x"
      proof cases
        case 1
        with k(3) show ?thesis by simp
      next
        case 2
        with h have "\<not> nested d (heap w) x" by blast
        then show ?thesis using nested_mono [of k "heap w" x d] kd by auto
      qed
    qed
    have "dequeueElements_loop (deqH ?held) (elements (heap w j)) j w
            = dequeueElements_loop deq (elements (heap w j)) j w"
      using loop_unrefused [where deq = deq and deqH = "deqH ?held" and held = ?held and k = k,
              OF fr eq [OF kd] el hk] .
    then have "dequeueElements_with (deqH ?held) j w = dequeueElements_with deq j w"
      by (simp add: dequeueElements_with_def)
    then show ?thesis by (simp add: aboutToBeDequeued_with_def)
  qed
  with nh show ?thesis by (simp add: Job_aboutToBeDequeued_def QMutexLocker_def)
qed

lemma dequeue_p_holding_free:
  "nested d (heap w) j \<Longrightarrow> d < n \<Longrightarrow> \<forall>x. JobMutex x \<in> held \<longrightarrow> \<not> nested d (heap w) x
     \<Longrightarrow> dequeue_p_holding n held (Some j) w = dequeue_p n (Some j) (w :: 's world)"
proof (induction n arbitrary: d j w held)
  case 0
  then show ?case by simp
next
  case (Suc n)
  have eq: "\<And>k e v. k < d \<Longrightarrow> nested k (heap v) e
                \<Longrightarrow> \<forall>x. JobMutex x \<in> insert (JobMutex j) held \<longrightarrow> \<not> nested k (heap v) x
                \<Longrightarrow> dequeue_p_holding n (insert (JobMutex j) held) (Some e) v
                      = dequeue_p n (Some e) (v :: 's world)"
  proof -
    fix k e and v :: "'s world"
    assume "k < d" and a: "nested k (heap v) e"
      "\<forall>x. JobMutex x \<in> insert (JobMutex j) held \<longrightarrow> \<not> nested k (heap v) x"
    with Suc.prems(2) have "k < n" by simp
    from Suc.IH [OF a(1) this a(2)]
    show "dequeue_p_holding n (insert (JobMutex j) held) (Some e) v = dequeue_p n (Some e) v" .
  qed
  have "Job_aboutToBeDequeued (dequeue_p_holding n) held j w
          = aboutToBeDequeued_with (dequeue_p n) j w"
    using Job_aboutToBeDequeued_unrefused
            [where deq = "dequeue_p n" and deqH = "dequeue_p_holding n" and d = d and j = j
               and held = held, OF framed_dequeue_p eq Suc.prems(1,3)] .
  then show ?case by (simp add: Let_def)
qed

lemma dequeue_holding_free:
  assumes "nested d (heap w) j" and "d < n" and "WeaverMutex \<notin> held"
    and "\<forall>x. JobMutex x \<in> held \<longrightarrow> \<not> nested d (heap w) x"
  shows "dequeue_holding n held (Some j) w = dequeue n (Some j) w"
  using dequeue_p_holding_free [of d w j n "insert WeaverMutex held"] assms
  by (simp add: dequeue_holding_def dequeue_def QMutexLocker_def)

text \<open>
  In particular the weaver's methods, called from outside on a job whose collections do
  not contain themselves, are refused no mutex.
\<close>

lemma dequeue_holding_unrefused:
  "nested d (heap w) j \<Longrightarrow> d < n \<Longrightarrow> dequeue_holding n {} (Some j) w = dequeue n (Some j) w"
  by (rule dequeue_holding_free) simp_all

lemma aboutToBeDequeued_with_returns:
  assumes n: "nested d (heap w) j" and f: "d \<le> n"
  shows "\<exists>w'. aboutToBeDequeued_with (dequeue_p n) j (w :: 's world) = Inr w'"
proof (cases "isCollection (heap w j)")
  case False
  then show ?thesis by (simp add: aboutToBeDequeued_with_def)
next
  case c: True
  from least_nesting [OF n c] obtain k where
    k: "Suc k \<le> d" "nested (Suc k) (heap w) j" "\<not> nested k (heap w) j" by blast
  then have kn: "k < n" using f by simp
  have el: "\<forall>e \<in> set (elements (heap w j)). nested k (heap w) e" using k(2) c by simp
  have t: "returning k (dequeue_p n :: 's dequeue_fn)"
    unfolding returning_def using dequeue_p_returns kn by blast
  have "\<exists>w0. dequeueElements_with (dequeue_p n) j w = Inr w0"
  proof (cases "api (heap w j)")
    case False
    then show ?thesis by (simp add: dequeueElements_with_def)
  next
    case True
    from loop_returns [OF framed_dequeue_p confining_dequeue_p t el True k(3)] obtain w1 where
      "dequeueElements_loop (dequeue_p n) (elements (heap w j)) j w = Inr w1" by blast
    with True show ?thesis by (simp add: dequeueElements_with_def Let_def)
  qed
  then show ?thesis using c by (auto simp: aboutToBeDequeued_with_def)
qed

text \<open>
  \<^verbatim>\<open>stop\<close> on a collection that is in the assignments: \<^verbatim>\<open>dequeue_p\<close> finds it and calls
  its \<^verbatim>\<open>aboutToBeDequeued\<close>, which asks for the mutex that \<^verbatim>\<open>stop\<close> holds.
\<close>

lemma stop_blocks:
  assumes "api (heap w this)" and "this \<in> set (m_assignments w)"
    and "m_state w \<notin> {InConstruction, Destructed}"
  shows "stop (Suc n) {} this w = Inl Deadlock"
proof -
  have "indexOf (m_assignments w) (Some this) \<noteq> - 1" using assms(2) by (simp add: indexOf_absent)
  with assms(1,3) show ?thesis
    by (simp add: stop_def QMutexLocker_def dequeue_holding_def Job_aboutToBeDequeued_def Let_def)
qed

text \<open>
  \<^verbatim>\<open>stop\<close> on a collection that is not in the assignments, or in a state that rejects
  \<^verbatim>\<open>dequeue\<close>: the call of \<^verbatim>\<open>dequeue\<close> returns false, and the elements are dequeued one
  by one with no mutex refused.
\<close>

lemma stop_running:
  assumes c: "isCollection (heap w this)" and q: "api (heap w this)"
    and n: "nested d (heap w) this" and f: "d < n"
    and na: "this \<notin> set (m_assignments w) \<or> m_state w \<in> {InConstruction, Destructed}"
  shows "stop n {} this w = dequeueElements_with (dequeue n) this w"
proof -
  let ?held = "{JobMutex this}"
  from f obtain m where m: "n = Suc m" by (cases n) auto
  have d: "dequeue_holding n ?held (Some this) w = Inr (False, w)"
  proof (cases "m_state w \<in> {InConstruction, Destructed}")
    case True
    then show ?thesis by (simp add: dequeue_holding_def QMutexLocker_def)
  next
    case False
    with na have "indexOf (m_assignments w) (Some this) = - 1" by (auto simp: indexOf_absent)
    with False show ?thesis by (simp add: dequeue_holding_def QMutexLocker_def m)
  qed
  from least_nesting [OF n c] obtain k where
    k: "Suc k \<le> d" "nested (Suc k) (heap w) this" "\<not> nested k (heap w) this" by blast
  then have kn: "k < n" using f by simp
  have el: "\<forall>e \<in> set (elements (heap w this)). nested k (heap w) e" using k(2) c by simp
  have hk: "\<forall>x. JobMutex x \<in> ?held \<longrightarrow> \<not> nested k (heap w) x" using k(3) by simp
  have eq: "\<And>e v. nested k (heap v) e \<Longrightarrow> \<forall>x. JobMutex x \<in> ?held \<longrightarrow> \<not> nested k (heap v) x
                \<Longrightarrow> dequeue_holding n ?held (Some e) v = dequeue n (Some e) (v :: 'a world)"
    using kn by (intro dequeue_holding_free) simp_all
  have "dequeueElements_loop (dequeue_holding n ?held) (elements (heap w this)) this w
          = dequeueElements_loop (dequeue n) (elements (heap w this)) this w"
    using loop_unrefused [where deq = "dequeue n" and deqH = "dequeue_holding n ?held"
              and held = ?held and k = k, OF framed_dequeue eq el hk] .
  then have "dequeueElements_with (dequeue_holding n ?held) this w
               = dequeueElements_with (dequeue n) this w"
    by (simp add: dequeueElements_with_def)
  with d q show ?thesis by (simp add: stop_def QMutexLocker_def dequeueElements_holding_def)
qed

lemma stop_effect:
  assumes c: "isCollection (heap w this)" and q: "api (heap w this)"
    and n: "nested d (heap w) this" and dist: "distinct (m_assignments w)"
    and na: "m_state w \<notin> {InConstruction, Destructed} \<longrightarrow> this \<notin> set (m_assignments w)"
    and de: "dequeueElements_with (dequeue m) this w = Inr w'"
  shows "jobCounter (heap w' this) = 0 \<and>
         (m_state w \<notin> {InConstruction, Destructed} \<longrightarrow>
            this \<notin> set (m_assignments w') \<and>
            (\<forall>e \<in> set (elements (heap w this)). e \<notin> set (m_assignments w'))) \<and>
         (jobCounter (heap w this) \<noteq> 0 \<longrightarrow>
            \<not> api (heap w' this) \<and> status (heap w' this) = Status_Success \<and>
            (\<exists>pre. trace w' = pre @ map (\<lambda>p. PolicyFree p (self (heap w this)))
                                     (queuePolicies (heap w this))))"
proof -
  from least_nesting [OF n c] obtain k where
    k: "nested (Suc k) (heap w) this" "\<not> nested k (heap w) this" by blast
  from dequeueElements_with_effect [OF framed_dequeue confining_dequeue c q k dist de]
  obtain w2 where
    h: "heap w2 this = heap w this" and f: "dequeueFrame w w2" and
    a: "removingAt (m_state w) (dequeue m :: 'a dequeue_fn) \<longrightarrow>
          (\<forall>e \<in> set (elements (heap w this)). e \<notin> set (m_assignments w2))" and
    w': "w' = (if jobCounter (heap w this) \<noteq> 0
               then finalCleanup this (updJob this (\<lambda>jb. jb\<lparr>jobCounter := 0\<rparr>) w2)
               else updJob this (\<lambda>jb. jb\<lparr>jobCounter := 0\<rparr>) w2)"
    by blast
  have a2: "m_assignments w' = m_assignments w2" unfolding w' by simp
  have "set (m_assignments w2) \<subseteq> set (m_assignments w)"
    using f by (auto simp: dequeueFrame_def dest: list_emb_set)
  with na a2 have 1: "m_state w \<notin> {InConstruction, Destructed} \<longrightarrow> this \<notin> set (m_assignments w')"
    by auto
  have 2: "m_state w \<notin> {InConstruction, Destructed} \<longrightarrow>
             (\<forall>e \<in> set (elements (heap w this)). e \<notin> set (m_assignments w'))"
    using a a2 removingAt_dequeue [of "m_state w" m] by auto
  have 3: "jobCounter (heap w' this) = 0" unfolding w' by (simp add: finalCleanup_heap)
  have 4: "jobCounter (heap w this) \<noteq> 0 \<longrightarrow> \<not> api (heap w' this) \<and>
            status (heap w' this) = Status_Success \<and>
            trace w' = trace w2 @ map (\<lambda>p. PolicyFree p (self (heap w this)))
                                        (queuePolicies (heap w this))"
    unfolding w' using h by (simp add: finalCleanup_heap finalCleanup_trace)
  from 1 2 3 4 show ?thesis by blast
qed

lemma stop_returns:
  assumes c: "isCollection (heap w this)" and q: "api (heap w this)"
    and n: "nested d (heap w) this" and f: "d < m"
  shows "\<exists>w'. dequeueElements_with (dequeue m) this (w :: 's world) = Inr w'"
proof -
  from least_nesting [OF n c] obtain k where
    k: "Suc k \<le> d" "nested (Suc k) (heap w) this" "\<not> nested k (heap w) this" by blast
  have el: "\<forall>e \<in> set (elements (heap w this)). nested k (heap w) e" using k(2) c by simp
  have rt: "returning k (dequeue m :: 's dequeue_fn)" using k(1) f by (intro returning_dequeue) simp
  from loop_returns [OF framed_dequeue confining_dequeue rt el q k(3)]
  obtain w2 where "dequeueElements_loop (dequeue m) (elements (heap w this)) this w = Inr w2"
    by blast
  then show ?thesis using q by (simp add: dequeueElements_with_def Let_def)
qed

lemmas stop_defs = collection_defs collectionQueued_def QMutexLocker_def dequeue_holding_def
  dequeueElements_holding_def Job_aboutToBeDequeued_def

text \<open>
  C7. Let a collection be bound to the weaver (queued) and nested at some depth, let the
  assignments hold no job twice, and let the fuel go beyond that depth. \<^verbatim>\<open>stop\<close> is called
  by a thread that holds no mutex. If the collection is in the assignments, in a state
  that accepts \<^verbatim>\<open>dequeue\<close>, \<^verbatim>\<open>stop\<close> never returns: it does not dequeue the collection
  but waits for the collection's mutex, which it holds. Otherwise \<^verbatim>\<open>stop\<close> returns; then
  \<^verbatim>\<open>jobCounter\<close> is zero, in a state that accepts \<^verbatim>\<open>dequeue\<close> neither the collection nor
  any of its elements is in the assignments, and if \<^verbatim>\<open>jobCounter\<close> was not zero the
  cleanup has run: the last calls were \<^verbatim>\<open>free\<close> on every policy of the collection with
  its self pointer, the status is Success and the binding to the weaver is cleared.
  \<^verbatim>\<open>aboutToBeDequeued\<close>, called by the weaver under its mutex, returns as well, with the
  binding cleared, the counter zero, no element in the assignments and, if the counter
  was not zero, the calls of \<^verbatim>\<open>free\<close>.
\<close>

theorem stop_blocks_or_releases:
  assumes "isCollection (heap w this)" and "api (heap w this)"
    and "nested d (heap w) this" and "d < n" and "distinct (m_assignments w)"
  shows "(this \<in> set (m_assignments w) \<and> m_state w \<notin> {InConstruction, Destructed} \<longrightarrow>
            stop n {} this w = Inl Deadlock) \<and>
         (this \<notin> set (m_assignments w) \<or> m_state w \<in> {InConstruction, Destructed} \<longrightarrow>
            (\<exists>w'. stop n {} this w = Inr w' \<and>
               jobCounter (heap w' this) = 0 \<and>
               (m_state w \<notin> {InConstruction, Destructed} \<longrightarrow>
                  this \<notin> set (m_assignments w') \<and>
                  (\<forall>e \<in> set (elements (heap w this)). e \<notin> set (m_assignments w'))) \<and>
               (jobCounter (heap w this) \<noteq> 0 \<longrightarrow>
                  \<not> api (heap w' this) \<and> status (heap w' this) = Status_Success \<and>
                  (\<exists>pre. trace w' = pre @ map (\<lambda>p. PolicyFree p (self (heap w this)))
                                           (queuePolicies (heap w this)))))) \<and>
         (\<exists>v'. Job_aboutToBeDequeued (dequeue_p_holding n) {WeaverMutex} this w = Inr v' \<and>
            jobCounter (heap v' this) = 0 \<and> \<not> api (heap v' this) \<and>
            (\<forall>e \<in> set (elements (heap w this)). e \<notin> set (m_assignments v')) \<and>
            (jobCounter (heap w this) \<noteq> 0 \<longrightarrow>
               (\<exists>pre. trace v' = pre @ map (\<lambda>p. PolicyFree p (self (heap w this)))
                                        (queuePolicies (heap w this)))))"
proof (intro conjI impI)
  assume a: "this \<in> set (m_assignments w) \<and> m_state w \<notin> {InConstruction, Destructed}"
  from assms(4) obtain m where "n = Suc m" by (cases n) auto
  with a assms(2) show "stop n {} this w = Inl Deadlock" by (simp add: stop_blocks)
next
  assume na: "this \<notin> set (m_assignments w) \<or> m_state w \<in> {InConstruction, Destructed}"
  note e = stop_running [OF assms(1-4) na]
  from stop_returns [OF assms(1-4)] obtain w' where
    r: "dequeueElements_with (dequeue n) this w = Inr w'" by blast
  from na have "m_state w \<notin> {InConstruction, Destructed} \<longrightarrow> this \<notin> set (m_assignments w)"
    by blast
  from stop_effect [OF assms(1-3,5) this r] e r
  show "\<exists>w'. stop n {} this w = Inr w' \<and>
               jobCounter (heap w' this) = 0 \<and>
               (m_state w \<notin> {InConstruction, Destructed} \<longrightarrow>
                  this \<notin> set (m_assignments w') \<and>
                  (\<forall>e \<in> set (elements (heap w this)). e \<notin> set (m_assignments w'))) \<and>
               (jobCounter (heap w this) \<noteq> 0 \<longrightarrow>
                  \<not> api (heap w' this) \<and> status (heap w' this) = Status_Success \<and>
                  (\<exists>pre. trace w' = pre @ map (\<lambda>p. PolicyFree p (self (heap w this)))
                                           (queuePolicies (heap w this))))"
    by (intro exI [of _ w']) simp
next
  have eq: "\<And>k e v. k < d \<Longrightarrow> nested k (heap v) e
                \<Longrightarrow> \<forall>x. JobMutex x \<in> insert (JobMutex this) {WeaverMutex} \<longrightarrow> \<not> nested k (heap v) x
                \<Longrightarrow> dequeue_p_holding n (insert (JobMutex this) {WeaverMutex}) (Some e) v
                      = dequeue_p n (Some e) (v :: 'a world)"
    using assms(4) by (intro dequeue_p_holding_free) simp_all
  have h: "\<forall>x. JobMutex x \<in> {WeaverMutex} \<longrightarrow> \<not> nested d (heap w) x" by simp
  have u: "Job_aboutToBeDequeued (dequeue_p_holding n) {WeaverMutex} this w
             = aboutToBeDequeued_with (dequeue_p n) this w"
    using Job_aboutToBeDequeued_unrefused
            [where deq = "dequeue_p n" and deqH = "dequeue_p_holding n" and d = d and j = this
               and held = "{WeaverMutex}", OF framed_dequeue_p eq assms(3) h] .
  from assms(4) have "d \<le> n" by simp
  from aboutToBeDequeued_with_returns [OF assms(3) this] obtain v' where
    r: "aboutToBeDequeued_with (dequeue_p n) this w = Inr v'" by blast
  from aboutToBeDequeued_with_effect [OF assms(1-3,5) r] u r
  show "\<exists>v'. Job_aboutToBeDequeued (dequeue_p_holding n) {WeaverMutex} this w = Inr v' \<and>
            jobCounter (heap v' this) = 0 \<and> \<not> api (heap v' this) \<and>
            (\<forall>e \<in> set (elements (heap w this)). e \<notin> set (m_assignments v')) \<and>
            (jobCounter (heap w this) \<noteq> 0 \<longrightarrow>
               (\<exists>pre. trace v' = pre @ map (\<lambda>p. PolicyFree p (self (heap w this)))
                                        (queuePolicies (heap w this))))"
    by (intro exI [of _ v']) simp
qed

theorem stop_blocks_or_releases_witness:
  "isCollection (heap queuedCollection 1) \<and> api (heap queuedCollection 1) \<and>
   nested 1 (heap queuedCollection) 1 \<and> distinct (m_assignments queuedCollection) \<and>
   1 \<in> set (m_assignments queuedCollection) \<and>
   m_state queuedCollection \<notin> {InConstruction, Destructed} \<and>
   stop 2 {} 1 queuedCollection = Inl Deadlock \<and>
   (\<exists>v'. Job_aboutToBeDequeued (dequeue_p_holding 2) {WeaverMutex} 1 queuedCollection = Inr v' \<and>
        \<not> api (heap v' 1) \<and> 0 \<notin> set (m_assignments v')) \<and>
   isCollection (heap elementsQueued 1) \<and> api (heap elementsQueued 1) \<and>
   nested 1 (heap elementsQueued) 1 \<and> distinct (m_assignments elementsQueued) \<and>
   1 \<notin> set (m_assignments elementsQueued) \<and>
   m_state elementsQueued \<notin> {InConstruction, Destructed} \<and>
   jobCounter (heap elementsQueued 1) \<noteq> 0 \<and>
   (\<exists>w'. stop 2 {} 1 elementsQueued = Inr w' \<and> jobCounter (heap w' 1) = 0 \<and>
        1 \<notin> set (m_assignments w') \<and> 0 \<notin> set (m_assignments w') \<and>
        2 \<notin> set (m_assignments w') \<and>
        \<not> api (heap w' 1) \<and> status (heap w' 1) = Status_Success \<and>
        (\<exists>pre. trace w' = pre @ [PolicyFree 0 (Some 1)]))"
proof -
  have p: "isCollection (heap queuedCollection 1)" "api (heap queuedCollection 1)"
    "nested 1 (heap queuedCollection) 1" "(1 :: nat) < 2" "distinct (m_assignments queuedCollection)"
    by (simp_all add: queuedCollection_def collection_defs)
  have q: "1 \<in> set (m_assignments queuedCollection)"
    "m_state queuedCollection \<notin> {InConstruction, Destructed}"
    "elements (heap queuedCollection 1) = [0]"
    by (simp_all add: queuedCollection_def collection_defs)
  note t = stop_blocks_or_releases [OF p]
  from t q(1,2) have b: "stop 2 {} 1 queuedCollection = Inl Deadlock" by blast
  from t have "\<exists>v'. Job_aboutToBeDequeued (dequeue_p_holding 2) {WeaverMutex} 1 queuedCollection = Inr v' \<and>
        \<not> api (heap v' 1) \<and>
        (\<forall>e \<in> set (elements (heap queuedCollection 1)). e \<notin> set (m_assignments v'))" by blast
  then have cb: "\<exists>v'. Job_aboutToBeDequeued (dequeue_p_holding 2) {WeaverMutex} 1 queuedCollection = Inr v' \<and>
        \<not> api (heap v' 1) \<and> 0 \<notin> set (m_assignments v')" unfolding q(3) by simp
  have p': "isCollection (heap elementsQueued 1)" "api (heap elementsQueued 1)"
    "nested 1 (heap elementsQueued) 1" "(1 :: nat) < 2" "distinct (m_assignments elementsQueued)"
    by (simp_all add: elementsQueued_def runningCollection_def collection_defs)
  have e: "1 \<notin> set (m_assignments elementsQueued)"
    "m_state elementsQueued \<notin> {InConstruction, Destructed}"
    "jobCounter (heap elementsQueued 1) \<noteq> 0"
    by (simp_all add: elementsQueued_def runningCollection_def collection_defs)
  have e': "self (heap elementsQueued 1) = Some 1" "queuePolicies (heap elementsQueued 1) = [0]"
    "elements (heap elementsQueued 1) = [0, 2]"
    by (simp_all add: elementsQueued_def runningCollection_def collection_defs)
  note t' = stop_blocks_or_releases [OF p']
  from t' e have "\<exists>w'. stop 2 {} 1 elementsQueued = Inr w' \<and> jobCounter (heap w' 1) = 0 \<and>
        (1 \<notin> set (m_assignments w') \<and>
         (\<forall>e \<in> set (elements (heap elementsQueued 1)). e \<notin> set (m_assignments w'))) \<and>
        (\<not> api (heap w' 1) \<and> status (heap w' 1) = Status_Success \<and>
        (\<exists>pre. trace w' = pre @ map (\<lambda>p. PolicyFree p (self (heap elementsQueued 1)))
                                           (queuePolicies (heap elementsQueued 1))))" by blast
  then have s: "\<exists>w'. stop 2 {} 1 elementsQueued = Inr w' \<and> jobCounter (heap w' 1) = 0 \<and>
        1 \<notin> set (m_assignments w') \<and> 0 \<notin> set (m_assignments w') \<and>
        2 \<notin> set (m_assignments w') \<and>
        \<not> api (heap w' 1) \<and> status (heap w' 1) = Status_Success \<and>
        (\<exists>pre. trace w' = pre @ [PolicyFree 0 (Some 1)])" unfolding e' by simp
  from p(1-3,5) q(1,2) b cb p'(1-3,5) e s show ?thesis by blast
qed

text \<open>
  The collection of two elements, queued and not yet handed to a thread: \<^verbatim>\<open>stop\<close> does
  not return, where \<^verbatim>\<open>dequeue\<close> of the weaver, called on the collection by a thread that
  holds no mutex, returns true and takes it out of the assignments.
\<close>

theorem stop_waits_for_own_mutex:
  "m_assignments collectionQueued = [1] \<and> api (heap collectionQueued 1) \<and>
   m_state collectionQueued = WorkingHard \<and>
   stop 2 {} 1 collectionQueued = Inl Deadlock \<and>
   (\<exists>W. dequeue_holding 2 {} (Some 1) collectionQueued = Inr (True, W) \<and>
        m_assignments W = [] \<and> status (heap W 1) = Status_New \<and> \<not> api (heap W 1))"
  by (simp add: stop_defs)

end
